theory Spec2Isabelle
  imports Complex_Main "HOL-Library.Multiset"
begin

section \<open>Cluster formation for the XMRT mesh network\<close>

text \<open>
  A shallow embedding of \<^verbatim>\<open>core/meshnet/src/protocol/ClusterFormation.cpp\<close>.
  C++ \<^verbatim>\<open>double\<close> arithmetic is taken over the reals: rounding, infinities and NaN are
  outside the model (the election, which compares scores, is therefore also stated for an
  arbitrary score function). A \<^verbatim>\<open>size_t\<close> is a natural number (no arithmetic is done
  on it, so nothing can wrap). The system clock and the random device are read once per
  call of \<^verbatim>\<open>generateClusterId\<close> and \<^verbatim>\<open>formCluster\<close>; what they return is passed in
  explicitly.
\<close>

subsection \<open>Data model\<close>

text \<open>
  Modelled from the spec: the declarations of \<^verbatim>\<open>Device\<close> and \<^verbatim>\<open>Cluster\<close> live in
  \<^verbatim>\<open>ClusterFormation.h\<close>, which is not part of the sources. The fields are the ones the
  code reads and writes (the two \<^verbatim>\<open>id\<close> fields are \<open>device_id\<close> and \<open>cluster_id\<close>,
  since \<open>id\<close> is HOL's identity function); every numeric field is a real, which covers
  both an integral and a floating declaration.
\<close>

record Device =
  device_id :: string
  rssi :: real
  batteryLevel :: real
  connectionStability :: real
  cpuCores :: real
  ramGB :: real
  storageGB :: real
  supports5G :: bool
  supportsWiFi6 :: bool
  supportsWiFi5 :: bool

record Cluster =
  cluster_id :: string
  leader :: Device
  members :: "Device list"
  formationTime :: int
  maxSize :: nat
  averageRssi :: real
  totalBatteryLevel :: real

text \<open>
  \<^verbatim>\<open>InvalidInput\<close> is the \<^verbatim>\<open>std::invalid_argument\<close> thrown by \<^verbatim>\<open>formCluster\<close>.
  \<^verbatim>\<open>OutOfBounds\<close> stands for \<^verbatim>\<open>operator[]\<close> applied to a vector at an index it does not
  have, which C++ leaves undefined.
\<close>

datatype error = InvalidInput | OutOfBounds

definition vector_at :: "'a list \<Rightarrow> nat \<Rightarrow> error + 'a" where
  "vector_at v i = (if i < length v then Inr (v ! i) else Inl OutOfBounds)"

subsection \<open>Leadership score\<close>

definition BATTERY_WEIGHT :: real where "BATTERY_WEIGHT = 0.4"
definition RSSI_WEIGHT :: real where "RSSI_WEIGHT = 0.3"
definition STABILITY_WEIGHT :: real where "STABILITY_WEIGHT = 0.2"
definition CAPABILITY_WEIGHT :: real where "CAPABILITY_WEIGHT = 0.1"

definition calculateCapabilityScore :: "Device \<Rightarrow> real" where
  "calculateCapabilityScore device =
     (let score = 0;
          score = score + min 1 (cpuCores device / 8) * 0.3;
          score = score + min 1 (ramGB device / 16) * 0.3;
          score = score + min 1 (storageGB device / 512) * 0.2;
          score = (if supports5G device then score + 0.2
                   else if supportsWiFi6 device then score + 0.15
                   else if supportsWiFi5 device then score + 0.1
                   else score)
      in min 1 score)"

definition calculateLeadershipScore :: "Device \<Rightarrow> real" where
  "calculateLeadershipScore device =
     (let batteryScore = batteryLevel device / 100;
          rssiScore = max 0 ((rssi device + 100) / 100);
          stabilityScore = connectionStability device;
          capabilityScore = calculateCapabilityScore device
      in (batteryScore * BATTERY_WEIGHT) +
         (rssiScore * RSSI_WEIGHT) +
         (stabilityScore * STABILITY_WEIGHT) +
         (capabilityScore * CAPABILITY_WEIGHT))"

subsection \<open>Leader election\<close>

text \<open>
  The loop of \<^verbatim>\<open>electLeader\<close> carries \<^verbatim>\<open>bestCandidate\<close> and \<^verbatim>\<open>bestScore\<close>. The
  pointer into the vector is the device it points to (\<open>None\<close> for \<^verbatim>\<open>nullptr\<close>): both
  callers only dereference it.

  The loop compares the doubles that \<^verbatim>\<open>calculateLeadershipScore\<close> returns. Two devices
  whose exact scores are equal can have doubles that differ in the last bit, and then the
  machine elects the one with the larger double where exact arithmetic elects the first.
  The loop therefore takes the score as a function \<open>leadershipScore\<close>: \<open>electLeader\<close> is
  the loop run with the exact \<open>calculateLeadershipScore\<close>, the program is the loop run
  with its rounded double, and what holds of the loop for every score function holds of
  both.
\<close>

fun electLeader_loop ::
  "(Device \<Rightarrow> real) \<Rightarrow> Device list \<Rightarrow> Device option \<Rightarrow> real \<Rightarrow> Device option" where
  "electLeader_loop leadershipScore [] bestCandidate bestScore = bestCandidate"
| "electLeader_loop leadershipScore (device # rest) bestCandidate bestScore =
     (let score = leadershipScore device
      in if score > bestScore then electLeader_loop leadershipScore rest (Some device) score
         else electLeader_loop leadershipScore rest bestCandidate bestScore)"

definition electLeader_with :: "(Device \<Rightarrow> real) \<Rightarrow> Device list \<Rightarrow> Device option" where
  "electLeader_with leadershipScore devices =
     (if devices = [] then None else electLeader_loop leadershipScore devices None (- 1))"

definition electLeader :: "Device list \<Rightarrow> Device option" where
  "electLeader devices = electLeader_with calculateLeadershipScore devices"

subsection \<open>Cluster metrics\<close>

definition calculateAverageRssi :: "Device list \<Rightarrow> real" where
  "calculateAverageRssi ms =
     (if ms = [] then 0
      else foldl (\<lambda>sum device. sum + rssi device) 0 ms / real (length ms))"

definition calculateTotalBattery :: "Device list \<Rightarrow> real" where
  "calculateTotalBattery ms = foldl (\<lambda>total device. total + batteryLevel device) 0 ms"

subsection \<open>Cluster identifiers\<close>

text \<open>\<^verbatim>\<open>std::to_string\<close> on an integer: decimal digits, with a sign when negative.\<close>

definition digit_char :: "nat \<Rightarrow> char" where
  "digit_char n = char_of (48 + n mod 10)"

function nat_to_string :: "nat \<Rightarrow> string" where
  "nat_to_string n =
     (if n < 10 then [digit_char n] else nat_to_string (n div 10) @ [digit_char n])"
  by pat_completeness auto
termination
  by (relation "measure (\<lambda>n. n)") auto

declare nat_to_string.simps [simp del]

definition to_string :: "int \<Rightarrow> string" where
  "to_string i = (if i < 0 then CHR ''-'' # nat_to_string (nat (- i)) else nat_to_string (nat i))"

text \<open>
  \<open>timestamp\<close> is the clock reading in milliseconds since the epoch and \<open>draw\<close> the value
  delivered by the uniform distribution on 1000..9999.
\<close>

definition generateClusterId :: "int \<Rightarrow> int \<Rightarrow> string" where
  "generateClusterId timestamp draw =
     ''cluster_'' @ to_string timestamp @ ''_'' @ to_string draw"

subsection \<open>Sorting by signal strength\<close>

text \<open>The comparator handed to \<^verbatim>\<open>std::sort\<close> by \<^verbatim>\<open>formCluster\<close>.\<close>

definition rssi_greater :: "Device \<Rightarrow> Device \<Rightarrow> bool" where
  "rssi_greater a b \<longleftrightarrow> rssi a > rssi b"

text \<open>
  \<^verbatim>\<open>std::sort\<close> is library code. The C++ standard promises that the range afterwards holds
  the same elements and that no element is ordered before one that precedes it; the order
  of equivalent elements is not promised (that is \<^verbatim>\<open>std::stable_sort\<close>). The sort is
  therefore a parameter of \<open>formCluster\<close>, and \<open>std_sort_post\<close> is what the standard
  guarantees about one call of it.
\<close>

definition std_sort_post :: "('a \<Rightarrow> 'a \<Rightarrow> bool) \<Rightarrow> 'a list \<Rightarrow> 'a list \<Rightarrow> bool" where
  "std_sort_post cmp input output \<longleftrightarrow>
     mset output = mset input \<and> sorted_wrt (\<lambda>a b. \<not> cmp b a) output"

subsection \<open>The sort of the GNU C++ library\<close>

text \<open>
  The \<^verbatim>\<open>std::sort\<close> that a build with GCC links is the introsort of libstdc++
  (\<^verbatim>\<open>bits/stl_algo.h\<close>, \<^verbatim>\<open>bits/stl_heap.h\<close>), modelled here function by function under
  the library's names without their leading underscores. The vector is a list, an
  iterator is an index into it, and every function returns the vector it leaves behind.
  \<open>lst\<close> is the library's \<^verbatim>\<open>__last\<close> (\<open>last\<close> is a list function of HOL).

  The library's unguarded loops have no bounds checks: they rely on the comparator being
  a strict weak ordering. Where such a loop would leave the vector, the model stops it
  (\<open>first < length v\<close>, \<open>0 < lst\<close>).
\<close>

definition iter_swap :: "'a list \<Rightarrow> nat \<Rightarrow> nat \<Rightarrow> 'a list" where
  "iter_swap v i j = v[i := v ! j, j := v ! i]"

definition move_median_to_first ::
  "('a \<Rightarrow> 'a \<Rightarrow> bool) \<Rightarrow> 'a list \<Rightarrow> nat \<Rightarrow> nat \<Rightarrow> nat \<Rightarrow> nat \<Rightarrow> 'a list" where
  "move_median_to_first cmp v result a b c =
     (if cmp (v ! a) (v ! b) then
        (if cmp (v ! b) (v ! c) then iter_swap v result b
         else if cmp (v ! a) (v ! c) then iter_swap v result c
         else iter_swap v result a)
      else if cmp (v ! a) (v ! c) then iter_swap v result a
      else if cmp (v ! b) (v ! c) then iter_swap v result c
      else iter_swap v result b)"

text \<open>
  The two inner loops of \<^verbatim>\<open>__unguarded_partition\<close>:
  \<^verbatim>\<open>while (__comp(__first, __pivot)) ++__first;\<close> and
  \<^verbatim>\<open>while (__comp(__pivot, __last)) --__last;\<close>.
\<close>

function scan_forward :: "('a \<Rightarrow> 'a \<Rightarrow> bool) \<Rightarrow> 'a list \<Rightarrow> nat \<Rightarrow> nat \<Rightarrow> nat" where
  "scan_forward cmp v first pivot =
     (if first < length v \<and> cmp (v ! first) (v ! pivot)
      then scan_forward cmp v (Suc first) pivot else first)"
  by pat_completeness auto
termination
  by (relation "measure (\<lambda>(cmp, v, first, pivot). length v - first)") auto

declare scan_forward.simps [simp del]

function scan_backward :: "('a \<Rightarrow> 'a \<Rightarrow> bool) \<Rightarrow> 'a list \<Rightarrow> nat \<Rightarrow> nat \<Rightarrow> nat" where
  "scan_backward cmp v lst pivot =
     (if 0 < lst \<and> cmp (v ! pivot) (v ! lst)
      then scan_backward cmp v (lst - 1) pivot else lst)"
  by pat_completeness auto
termination
  by (relation "measure (\<lambda>(cmp, v, lst, pivot). lst)") auto

declare scan_backward.simps [simp del]

function unguarded_partition ::
  "('a \<Rightarrow> 'a \<Rightarrow> bool) \<Rightarrow> 'a list \<Rightarrow> nat \<Rightarrow> nat \<Rightarrow> nat \<Rightarrow> 'a list \<times> nat" where
  "unguarded_partition cmp v first lst pivot =
     (let first = scan_forward cmp v first pivot;
          lst = lst - 1;
          lst = scan_backward cmp v lst pivot
      in if \<not> first < lst then (v, first)
         else unguarded_partition cmp (iter_swap v first lst) (Suc first) lst pivot)"
  by pat_completeness auto
termination
proof (relation "measure (\<lambda>(cmp, v, first, lst, pivot). lst - first)", goal_cases)
  case 1
  show ?case by simp
next
  case (2 cmp v first lst pivot f l l')
  have "first \<le> scan_forward cmp v first pivot" for cmp :: "'a \<Rightarrow> 'a \<Rightarrow> bool" and v first pivot
  proof (induction cmp v first pivot rule: scan_forward.induct)
    case (1 cmp v first pivot)
    show ?case
    proof (cases "first < length v \<and> cmp (v ! first) (v ! pivot)")
      case True
      with 1 have "Suc first \<le> scan_forward cmp v (Suc first) pivot" by simp
      with True show ?thesis by (subst scan_forward.simps) simp
    next
      case False
      then show ?thesis by (subst scan_forward.simps) auto
    qed
  qed
  then have "first \<le> f" using 2 by simp
  moreover have "scan_backward cmp v lst pivot \<le> lst" for cmp :: "'a \<Rightarrow> 'a \<Rightarrow> bool" and v lst pivot
  proof (induction cmp v lst pivot rule: scan_backward.induct)
    case (1 cmp v lst pivot)
    show ?case
    proof (cases "0 < lst \<and> cmp (v ! pivot) (v ! lst)")
      case True
      with 1 have "scan_backward cmp v (lst - 1) pivot \<le> lst - 1" by simp
      with True show ?thesis by (subst scan_backward.simps) simp
    next
      case False
      then show ?thesis by (subst scan_backward.simps) auto
    qed
  qed
  then have "l' \<le> lst - 1" using 2 by simp
  ultimately show ?case using 2 by simp
qed

declare unguarded_partition.simps [simp del]

definition unguarded_partition_pivot ::
  "('a \<Rightarrow> 'a \<Rightarrow> bool) \<Rightarrow> 'a list \<Rightarrow> nat \<Rightarrow> nat \<Rightarrow> 'a list \<times> nat" where
  "unguarded_partition_pivot cmp v first lst =
     (let mid = first + (lst - first) div 2;
          v = move_median_to_first cmp v first (first + 1) mid (lst - 1)
      in unguarded_partition cmp v (first + 1) lst first)"

text \<open>
  The heap functions work with distances from \<open>first\<close>. The library computes them in a
  signed type: \<^verbatim>\<open>(__holeIndex - 1) / 2\<close> is 0 at hole 0 and \<^verbatim>\<open>(__len - 1) / 2\<close> is 0 at
  length 0, as the truncating subtraction of the naturals gives, while
  \<^verbatim>\<open>(__len - 2) / 2\<close> is negative at length 0, which \<open>2 \<le> len\<close> accounts for.
\<close>

function push_heap ::
  "('a \<Rightarrow> 'a \<Rightarrow> bool) \<Rightarrow> 'a list \<Rightarrow> nat \<Rightarrow> nat \<Rightarrow> nat \<Rightarrow> 'a \<Rightarrow> 'a list" where
  "push_heap cmp v first holeIndex topIndex val =
     (let parent = (holeIndex - 1) div 2
      in if holeIndex > topIndex \<and> cmp (v ! (first + parent)) val
         then push_heap cmp (v[first + holeIndex := v ! (first + parent)]) first parent topIndex val
         else v[first + holeIndex := val])"
  by pat_completeness auto
termination
  by (relation "measure (\<lambda>(cmp, v, first, holeIndex, topIndex, val). holeIndex)") auto

declare push_heap.simps [simp del]

text \<open>The first loop of \<^verbatim>\<open>__adjust_heap\<close>, which moves the larger child up into the hole.\<close>

function adjust_heap_descend ::
  "('a \<Rightarrow> 'a \<Rightarrow> bool) \<Rightarrow> 'a list \<Rightarrow> nat \<Rightarrow> nat \<Rightarrow> nat \<Rightarrow> nat \<Rightarrow> 'a list \<times> nat \<times> nat" where
  "adjust_heap_descend cmp v first holeIndex secondChild len =
     (if secondChild < (len - 1) div 2 then
        let secondChild = 2 * (secondChild + 1);
            secondChild = (if cmp (v ! (first + secondChild)) (v ! (first + (secondChild - 1)))
                           then secondChild - 1 else secondChild)
        in adjust_heap_descend cmp (v[first + holeIndex := v ! (first + secondChild)])
             first secondChild secondChild len
      else (v, holeIndex, secondChild))"
  by pat_completeness auto
termination
  by (relation "measure (\<lambda>(cmp, v, first, holeIndex, secondChild, len). len - secondChild)") auto

declare adjust_heap_descend.simps [simp del]

definition adjust_heap ::
  "('a \<Rightarrow> 'a \<Rightarrow> bool) \<Rightarrow> 'a list \<Rightarrow> nat \<Rightarrow> nat \<Rightarrow> nat \<Rightarrow> 'a \<Rightarrow> 'a list" where
  "adjust_heap cmp v first holeIndex len val =
     (let topIndex = holeIndex;
          (v, holeIndex, secondChild) = adjust_heap_descend cmp v first holeIndex holeIndex len;
          (v, holeIndex) =
            (if even len \<and> 2 \<le> len \<and> secondChild = (len - 2) div 2 then
               let secondChild = 2 * (secondChild + 1)
               in (v[first + holeIndex := v ! (first + (secondChild - 1))], secondChild - 1)
             else (v, holeIndex))
      in push_heap cmp v first holeIndex topIndex val)"

definition pop_heap ::
  "('a \<Rightarrow> 'a \<Rightarrow> bool) \<Rightarrow> 'a list \<Rightarrow> nat \<Rightarrow> nat \<Rightarrow> nat \<Rightarrow> 'a list" where
  "pop_heap cmp v first lst result =
     (let val = v ! result;
          v = v[result := v ! first]
      in adjust_heap cmp v first 0 (lst - first) val)"

text \<open>The loop of \<^verbatim>\<open>__make_heap\<close>, from the last parent down to the root.\<close>

function make_heap_loop ::
  "('a \<Rightarrow> 'a \<Rightarrow> bool) \<Rightarrow> 'a list \<Rightarrow> nat \<Rightarrow> nat \<Rightarrow> nat \<Rightarrow> 'a list" where
  "make_heap_loop cmp v first len parent =
     (let val = v ! (first + parent);
          v = adjust_heap cmp v first parent len val
      in if parent = 0 then v else make_heap_loop cmp v first len (parent - 1))"
  by pat_completeness auto
termination
  by (relation "measure (\<lambda>(cmp, v, first, len, parent). parent)") auto

declare make_heap_loop.simps [simp del]

definition make_heap :: "('a \<Rightarrow> 'a \<Rightarrow> bool) \<Rightarrow> 'a list \<Rightarrow> nat \<Rightarrow> nat \<Rightarrow> 'a list" where
  "make_heap cmp v first lst =
     (if lst - first < 2 then v
      else let len = lst - first; parent = (len - 2) div 2
           in make_heap_loop cmp v first len parent)"

function sort_heap :: "('a \<Rightarrow> 'a \<Rightarrow> bool) \<Rightarrow> 'a list \<Rightarrow> nat \<Rightarrow> nat \<Rightarrow> 'a list" where
  "sort_heap cmp v first lst =
     (if lst - first > 1 then
        let lst = lst - 1
        in sort_heap cmp (pop_heap cmp v first lst lst) first lst
      else v)"
  by pat_completeness auto
termination
  by (relation "measure (\<lambda>(cmp, v, first, lst). lst - first)") auto

declare sort_heap.simps [simp del]

definition heap_select ::
  "('a \<Rightarrow> 'a \<Rightarrow> bool) \<Rightarrow> 'a list \<Rightarrow> nat \<Rightarrow> nat \<Rightarrow> nat \<Rightarrow> 'a list" where
  "heap_select cmp v first middle lst =
     foldl (\<lambda>v i. if cmp (v ! i) (v ! first) then pop_heap cmp v first middle i else v)
       (make_heap cmp v first middle) [middle..<lst]"

definition partial_sort ::
  "('a \<Rightarrow> 'a \<Rightarrow> bool) \<Rightarrow> 'a list \<Rightarrow> nat \<Rightarrow> nat \<Rightarrow> nat \<Rightarrow> 'a list" where
  "partial_sort cmp v first middle lst =
     sort_heap cmp (heap_select cmp v first middle lst) first middle"

definition S_threshold :: nat where
  "S_threshold = 16"

text \<open>
  \<^verbatim>\<open>__introsort_loop\<close>: the recursive call sorts the part behind the cut, the loop goes on
  with the part before it.
\<close>

function introsort_loop ::
  "('a \<Rightarrow> 'a \<Rightarrow> bool) \<Rightarrow> 'a list \<Rightarrow> nat \<Rightarrow> nat \<Rightarrow> nat \<Rightarrow> 'a list" where
  "introsort_loop cmp v first lst depth_limit =
     (if lst - first > S_threshold then
        (if depth_limit = 0 then partial_sort cmp v first lst lst
         else
           let depth_limit = depth_limit - 1;
               (v, cut) = unguarded_partition_pivot cmp v first lst;
               v = introsort_loop cmp v cut lst depth_limit
           in introsort_loop cmp v first cut depth_limit)
      else v)"
  by pat_completeness auto
termination
  by (relation "measure (\<lambda>(cmp, v, first, lst, depth_limit). depth_limit)") auto

declare introsort_loop.simps [simp del]

text \<open>
  \<^verbatim>\<open>__unguarded_linear_insert\<close> takes the element at \<open>lst\<close> out and moves its left
  neighbours one place to the right for as long as it is ordered before them.
\<close>

function unguarded_linear_insert_loop ::
  "('a \<Rightarrow> 'a \<Rightarrow> bool) \<Rightarrow> 'a list \<Rightarrow> nat \<Rightarrow> 'a \<Rightarrow> 'a list" where
  "unguarded_linear_insert_loop cmp v lst val =
     (if 0 < lst \<and> cmp val (v ! (lst - 1))
      then unguarded_linear_insert_loop cmp (v[lst := v ! (lst - 1)]) (lst - 1) val
      else v[lst := val])"
  by pat_completeness auto
termination
  by (relation "measure (\<lambda>(cmp, v, lst, val). lst)") auto

declare unguarded_linear_insert_loop.simps [simp del]

definition unguarded_linear_insert :: "('a \<Rightarrow> 'a \<Rightarrow> bool) \<Rightarrow> 'a list \<Rightarrow> nat \<Rightarrow> 'a list" where
  "unguarded_linear_insert cmp v lst = unguarded_linear_insert_loop cmp v lst (v ! lst)"

text \<open>
  In \<^verbatim>\<open>__insertion_sort\<close>, an element ordered before the first one is put in front by
  \<^verbatim>\<open>std::move_backward(__first, __i, __i + 1)\<close> and \<^verbatim>\<open>*__first = __val\<close>.
\<close>

definition move_backward_insert :: "'a list \<Rightarrow> nat \<Rightarrow> nat \<Rightarrow> 'a list" where
  "move_backward_insert v first i =
     take first v @ v ! i # take (i - first) (drop first v) @ drop (Suc i) v"

definition insertion_sort :: "('a \<Rightarrow> 'a \<Rightarrow> bool) \<Rightarrow> 'a list \<Rightarrow> nat \<Rightarrow> nat \<Rightarrow> 'a list" where
  "insertion_sort cmp v first lst =
     (if first = lst then v
      else foldl (\<lambda>v i. if cmp (v ! i) (v ! first) then move_backward_insert v first i
                         else unguarded_linear_insert cmp v i)
             v [first + 1..<lst])"

definition unguarded_insertion_sort ::
  "('a \<Rightarrow> 'a \<Rightarrow> bool) \<Rightarrow> 'a list \<Rightarrow> nat \<Rightarrow> nat \<Rightarrow> 'a list" where
  "unguarded_insertion_sort cmp v first lst =
     foldl (\<lambda>v i. unguarded_linear_insert cmp v i) v [first..<lst]"

definition final_insertion_sort ::
  "('a \<Rightarrow> 'a \<Rightarrow> bool) \<Rightarrow> 'a list \<Rightarrow> nat \<Rightarrow> nat \<Rightarrow> 'a list" where
  "final_insertion_sort cmp v first lst =
     (if lst - first > S_threshold then
        unguarded_insertion_sort cmp (insertion_sort cmp v first (first + S_threshold))
          (first + S_threshold) lst
      else insertion_sort cmp v first lst)"

text \<open>\<^verbatim>\<open>std::__lg\<close>: the position of the highest set bit.\<close>

function lg :: "nat \<Rightarrow> nat" where
  "lg n = (if n < 2 then 0 else 1 + lg (n div 2))"
  by pat_completeness auto
termination
  by (relation "measure (\<lambda>n. n)") auto

declare lg.simps [simp del]

definition libstdcxx_sort :: "('a \<Rightarrow> 'a \<Rightarrow> bool) \<Rightarrow> 'a list \<Rightarrow> 'a list" where
  "libstdcxx_sort cmp v =
     (let first = 0; lst = length v
      in if first \<noteq> lst then
           final_insertion_sort cmp (introsort_loop cmp v first lst (lg (lst - first) * 2))
             first lst
         else v)"

subsection \<open>Forming a cluster\<close>

text \<open>
  \<open>id_clock\<close> and \<open>id_draw\<close> are the clock and random readings inside
  \<^verbatim>\<open>generateClusterId\<close>, \<open>now\<close> the clock reading stored as \<^verbatim>\<open>formationTime\<close>.
  \<^verbatim>\<open>resize\<close> to a smaller size keeps the front of the vector.
\<close>

definition formCluster ::
  "((Device \<Rightarrow> Device \<Rightarrow> bool) \<Rightarrow> Device list \<Rightarrow> Device list) \<Rightarrow> int \<Rightarrow> int \<Rightarrow> int \<Rightarrow>
     Device list \<Rightarrow> nat \<Rightarrow> error + Cluster" where
  "formCluster std_sort id_clock id_draw now devices maxClusterSize =
     (if devices = [] then Inl InvalidInput
      else
        let sortedDevices = std_sort rssi_greater devices;
            sortedDevices = (if length sortedDevices > maxClusterSize
                             then take maxClusterSize sortedDevices else sortedDevices)
        in case (case electLeader sortedDevices of
                   Some l \<Rightarrow> Inr l
                 | None \<Rightarrow> vector_at sortedDevices 0) of
             Inl e \<Rightarrow> Inl e
           | Inr l \<Rightarrow>
               Inr \<lparr> cluster_id = generateClusterId id_clock id_draw,
                     leader = l,
                     members = sortedDevices,
                     formationTime = now,
                     maxSize = maxClusterSize,
                     averageRssi = calculateAverageRssi sortedDevices,
                     totalBatteryLevel = calculateTotalBattery sortedDevices \<rparr>)"

subsection \<open>Optimizing a cluster\<close>

text \<open>
  \<^verbatim>\<open>MIN_BATTERY_THRESHOLD\<close> is declared outside the sources; it is the first parameter.
  \<^verbatim>\<open>remove_if\<close> followed by \<^verbatim>\<open>erase\<close> keeps, in order, the elements the predicate
  rejects; \<^verbatim>\<open>find_if\<close> is \<open>find\<close>, with \<open>None\<close> for the end iterator.
\<close>

definition optimizeCluster :: "real \<Rightarrow> Cluster \<Rightarrow> Cluster" where
  "optimizeCluster MIN_BATTERY_THRESHOLD cluster =
     (let optimized = cluster;
          optimized = optimized
            \<lparr> members := filter (\<lambda>device. \<not> batteryLevel device < MIN_BATTERY_THRESHOLD)
                                  (members optimized) \<rparr>;
          leaderIt = find (\<lambda>device. device_id device = device_id (leader optimized))
                          (members optimized);
          optimized =
            (if leaderIt = None \<and> members optimized \<noteq> [] then
               (case electLeader (members optimized) of
                  Some newLeader \<Rightarrow> optimized \<lparr> leader := newLeader \<rparr>
                | None \<Rightarrow> optimized)
             else optimized);
          optimized = optimized \<lparr> averageRssi := calculateAverageRssi (members optimized) \<rparr>;
          optimized = optimized
            \<lparr> totalBatteryLevel := calculateTotalBattery (members optimized) \<rparr>
      in optimized)"

subsection \<open>The documented domain and the spec's reference notions\<close>

text \<open>
  Modelled from the spec: the documented domains of the fields of a \<^verbatim>\<open>Device\<close>
  (battery in 0..100, stability in 0..1, positive capability metrics). The signal strength
  is only said to lie approximately in -100..0 and is left free. The code checks none of this.
\<close>

definition valid_device :: "Device \<Rightarrow> bool" where
  "valid_device d \<longleftrightarrow>
     0 \<le> batteryLevel d \<and> batteryLevel d \<le> 100 \<and>
     0 \<le> connectionStability d \<and> connectionStability d \<le> 1 \<and>
     0 < cpuCores d \<and> 0 < ramGB d \<and> 0 < storageGB d"

text \<open>The arithmetic mean in the spec's words, 0 for no values.\<close>

definition arithmetic_mean :: "real list \<Rightarrow> real" where
  "arithmetic_mean xs = (if xs = [] then 0 else sum_list xs / real (length xs))"


subsection \<open>Example devices and clusters\<close>

text \<open>
  \<open>device_A\<close>, \<open>device_B\<close> and \<open>device_C\<close> carry the signal strengths and battery
  levels of the spec's example; \<open>device_P\<close> and \<open>device_Q\<close> have the same signal
  strength. \<open>tied_device k\<close>, for \<open>k\<close> from 0 to 16, are seventeen devices of one signal
  strength, told apart by their ids and battery levels. All of them lie in the documented
  domain.
\<close>

definition device_A :: Device where
  "device_A = \<lparr> device_id = ''A'', rssi = - 40, batteryLevel = 90, connectionStability = 0.1,
                 cpuCores = 2, ramGB = 2, storageGB = 32,
                 supports5G = False, supportsWiFi6 = False, supportsWiFi5 = False \<rparr>"

definition device_B :: Device where
  "device_B = \<lparr> device_id = ''B'', rssi = - 30, batteryLevel = 20, connectionStability = 1,
                 cpuCores = 8, ramGB = 16, storageGB = 512,
                 supports5G = True, supportsWiFi6 = True, supportsWiFi5 = True \<rparr>"

definition device_C :: Device where
  "device_C = \<lparr> device_id = ''C'', rssi = - 80, batteryLevel = 95, connectionStability = 0.5,
                 cpuCores = 4, ramGB = 4, storageGB = 64,
                 supports5G = False, supportsWiFi6 = True, supportsWiFi5 = True \<rparr>"

definition cluster_BA :: Cluster where
  "cluster_BA = \<lparr> cluster_id = generateClusterId 17 1234, leader = device_B,
                   members = [device_B, device_A], formationTime = 18, maxSize = 2,
                   averageRssi = - 35, totalBatteryLevel = 110 \<rparr>"

definition cluster_AB :: Cluster where
  "cluster_AB = \<lparr> cluster_id = generateClusterId 17 1234, leader = device_A,
                   members = [device_B, device_A], formationTime = 18, maxSize = 2,
                   averageRssi = - 35, totalBatteryLevel = 110 \<rparr>"

definition device_P :: Device where
  "device_P = \<lparr> device_id = ''P'', rssi = - 50, batteryLevel = 80, connectionStability = 0.5,
                 cpuCores = 4, ramGB = 4, storageGB = 64,
                 supports5G = False, supportsWiFi6 = False, supportsWiFi5 = True \<rparr>"

definition device_Q :: Device where
  "device_Q = \<lparr> device_id = ''Q'', rssi = - 50, batteryLevel = 60, connectionStability = 0.5,
                 cpuCores = 4, ramGB = 4, storageGB = 64,
                 supports5G = False, supportsWiFi6 = False, supportsWiFi5 = True \<rparr>"

definition tied_device :: "nat \<Rightarrow> Device" where
  "tied_device k = \<lparr> device_id = ''node'' @ nat_to_string k, rssi = - 50,
                      batteryLevel = 40 + real k, connectionStability = 0.5,
                      cpuCores = 4, ramGB = 4, storageGB = 64,
                      supports5G = False, supportsWiFi6 = False, supportsWiFi5 = True \<rparr>"

text \<open>
  Outside the documented domain: \<open>device_X\<close> has a negative connection stability, and
  \<open>cluster_LX\<close> is the cluster of \<open>device_X\<close> and \<open>device_L\<close>, whose battery is empty.
\<close>

definition device_X :: Device where
  "device_X = \<lparr> device_id = ''X'', rssi = - 100, batteryLevel = 100, connectionStability = - 10,
                 cpuCores = 4, ramGB = 4, storageGB = 64,
                 supports5G = False, supportsWiFi6 = False, supportsWiFi5 = True \<rparr>"

definition device_L :: Device where
  "device_L = \<lparr> device_id = ''L'', rssi = - 40, batteryLevel = 0, connectionStability = 0.5,
                 cpuCores = 4, ramGB = 4, storageGB = 64,
                 supports5G = False, supportsWiFi6 = False, supportsWiFi5 = True \<rparr>"

definition cluster_LX :: Cluster where
  "cluster_LX = \<lparr> cluster_id = generateClusterId 17 1234, leader = device_L,
                   members = [device_L, device_X], formationTime = 18, maxSize = 2,
                   averageRssi = - 70, totalBatteryLevel = 100 \<rparr>"

section \<open>Auxiliary facts\<close>

subsection \<open>Election loop\<close>

lemma electLeader_loop_None:
  "electLeader_loop sc ds best bs = None \<longleftrightarrow> best = None \<and> (\<forall>d\<in>set ds. sc d \<le> bs)"
proof (induction ds arbitrary: best bs)
  case Nil
  show ?case by simp
next
  case (Cons d ds)
  show ?case
  proof (cases "sc d > bs")
    case True
    then show ?thesis using Cons.IH [of "Some d" "sc d"] by simp
  next
    case False
    then show ?thesis using Cons.IH [of best bs] by simp
  qed
qed

lemma electLeader_loop_Some:
  "electLeader_loop sc ds best bs = Some d \<Longrightarrow>
     (best = Some d \<and> (\<forall>e\<in>set ds. sc e \<le> bs)) \<or>
     (\<exists>pre post. ds = pre @ d # post \<and> bs < sc d \<and>
        (\<forall>e\<in>set pre. sc e < sc d) \<and> (\<forall>e\<in>set post. sc e \<le> sc d))"
proof (induction ds arbitrary: best bs)
  case Nil
  then show ?case by simp
next
  case (Cons x xs)
  show ?case
  proof (cases "sc x > bs")
    case True
    with Cons.prems have run: "electLeader_loop sc xs (Some x) (sc x) = Some d" by simp
    from Cons.IH [OF run] show ?thesis
    proof
      assume "Some x = Some d \<and> (\<forall>e\<in>set xs. sc e \<le> sc x)"
      then have "x # xs = [] @ d # xs" "bs < sc d" "\<forall>e\<in>set xs. sc e \<le> sc d"
        using True by auto
      then show ?thesis by (metis empty_iff list.set(1))
    next
      assume "\<exists>pre post. xs = pre @ d # post \<and> sc x < sc d \<and>
        (\<forall>e\<in>set pre. sc e < sc d) \<and> (\<forall>e\<in>set post. sc e \<le> sc d)"
      then obtain pre post where p: "xs = pre @ d # post" "sc x < sc d"
        "\<forall>e\<in>set pre. sc e < sc d" "\<forall>e\<in>set post. sc e \<le> sc d" by blast
      have "x # xs = (x # pre) @ d # post" using p(1) by simp
      moreover have "bs < sc d" using True p(2) by linarith
      moreover have "\<forall>e\<in>set (x # pre). sc e < sc d" using p(2,3) by simp
      ultimately show ?thesis using p(4) by blast
    qed
  next
    case False
    with Cons.prems have run: "electLeader_loop sc xs best bs = Some d" by simp
    from Cons.IH [OF run] show ?thesis
    proof
      assume "best = Some d \<and> (\<forall>e\<in>set xs. sc e \<le> bs)"
      then show ?thesis using False by auto
    next
      assume "\<exists>pre post. xs = pre @ d # post \<and> bs < sc d \<and>
        (\<forall>e\<in>set pre. sc e < sc d) \<and> (\<forall>e\<in>set post. sc e \<le> sc d)"
      then obtain pre post where p: "xs = pre @ d # post" "bs < sc d"
        "\<forall>e\<in>set pre. sc e < sc d" "\<forall>e\<in>set post. sc e \<le> sc d" by blast
      have "x # xs = (x # pre) @ d # post" using p(1) by simp
      moreover have "\<forall>e\<in>set (x # pre). sc e < sc d" using p(2,3) False by auto
      ultimately show ?thesis using p(2,4) by blast
    qed
  qed
qed

lemma electLeader_with_None_iff:
  "electLeader_with sc devices = None \<longleftrightarrow> (\<forall>d\<in>set devices. sc d \<le> - 1)"
  by (cases "devices = []") (simp_all add: electLeader_with_def electLeader_loop_None)

lemma electLeader_with_Some_split:
  assumes "electLeader_with sc devices = Some d"
  shows "\<exists>pre post. devices = pre @ d # post \<and> - 1 < sc d \<and>
           (\<forall>e\<in>set pre. sc e < sc d) \<and> (\<forall>e\<in>set post. sc e \<le> sc d)"
proof -
  from assms have "devices \<noteq> []" and "electLeader_loop sc devices None (- 1) = Some d"
    by (auto simp: electLeader_with_def split: if_splits)
  from electLeader_loop_Some [OF this(2)] show ?thesis by simp
qed

text \<open>
  On two devices the loop elects the second exactly when its score is the larger one. When
  the exact scores of the two are equal and rounding makes the double of the second the
  larger, the program elects the second and \<open>electLeader\<close> the first; both are the loop,
  run with the score each of them compares.
\<close>

lemma electLeader_with_pair:
  assumes "- 1 < sc a"
  shows "electLeader_with sc [a, b] = Some (if sc a < sc b then b else a)"
  using assms by (simp add: electLeader_with_def)

lemma electLeader_None_iff:
  "electLeader devices = None \<longleftrightarrow> (\<forall>d\<in>set devices. calculateLeadershipScore d \<le> - 1)"
  by (simp add: electLeader_def electLeader_with_None_iff)

lemma electLeader_Some_split:
  assumes "electLeader devices = Some d"
  shows "\<exists>pre post. devices = pre @ d # post \<and> - 1 < calculateLeadershipScore d \<and>
           (\<forall>e\<in>set pre. calculateLeadershipScore e < calculateLeadershipScore d) \<and>
           (\<forall>e\<in>set post. calculateLeadershipScore e \<le> calculateLeadershipScore d)"
  using assms electLeader_with_Some_split [of calculateLeadershipScore devices d]
  by (simp add: electLeader_def)

lemma electLeader_Some_mem: "electLeader devices = Some d \<Longrightarrow> d \<in> set devices"
  using electLeader_Some_split by fastforce

subsection \<open>Scores\<close>

lemmas score_defs = calculateLeadershipScore_def calculateCapabilityScore_def Let_def
  BATTERY_WEIGHT_def RSSI_WEIGHT_def STABILITY_WEIGHT_def CAPABILITY_WEIGHT_def

lemma capability_nonneg:
  "0 \<le> cpuCores d \<Longrightarrow> 0 \<le> ramGB d \<Longrightarrow> 0 \<le> storageGB d \<Longrightarrow> 0 \<le> calculateCapabilityScore d"
  by (simp add: calculateCapabilityScore_def Let_def min_def)

lemma valid_device_score_nonneg:
  assumes "valid_device d"
  shows "0 \<le> calculateLeadershipScore d"
proof -
  have "0 \<le> calculateCapabilityScore d"
    using assms by (intro capability_nonneg) (simp_all add: valid_device_def)
  moreover have "0 \<le> batteryLevel d" "0 \<le> connectionStability d"
    using assms by (simp_all add: valid_device_def)
  moreover have "0 \<le> max 0 ((rssi d + 100) / 100)" by simp
  ultimately show ?thesis
    by (simp add: calculateLeadershipScore_def Let_def BATTERY_WEIGHT_def RSSI_WEIGHT_def
        STABILITY_WEIGHT_def CAPABILITY_WEIGHT_def)
qed

lemma min1_div_mono: "(v::real) \<le> w \<Longrightarrow> 0 < k \<Longrightarrow> min 1 (v / k) \<le> min 1 (w / k)"
  by (simp add: divide_right_mono min.coboundedI2)

lemma capability_mono_cpuCores:
  assumes "v \<le> w"
  shows "calculateCapabilityScore (d\<lparr>cpuCores := v\<rparr>) \<le> calculateCapabilityScore (d\<lparr>cpuCores := w\<rparr>)"
proof -
  have "min 1 (v / 8) \<le> min 1 (w / 8)" using assms by (simp add: min1_div_mono)
  then show ?thesis
    by (simp add: calculateCapabilityScore_def Let_def min.coboundedI2)
qed

lemma capability_mono_ramGB:
  assumes "v \<le> w"
  shows "calculateCapabilityScore (d\<lparr>ramGB := v\<rparr>) \<le> calculateCapabilityScore (d\<lparr>ramGB := w\<rparr>)"
proof -
  have "min 1 (v / 16) \<le> min 1 (w / 16)" using assms by (simp add: min1_div_mono)
  then show ?thesis
    by (simp add: calculateCapabilityScore_def Let_def min.coboundedI2)
qed

lemma capability_mono_storageGB:
  assumes "v \<le> w"
  shows "calculateCapabilityScore (d\<lparr>storageGB := v\<rparr>) \<le> calculateCapabilityScore (d\<lparr>storageGB := w\<rparr>)"
proof -
  have "min 1 (v / 512) \<le> min 1 (w / 512)" using assms by (simp add: min1_div_mono)
  then show ?thesis
    by (simp add: calculateCapabilityScore_def Let_def min.coboundedI2)
qed

lemma capability_ignores [simp]:
  "calculateCapabilityScore (d\<lparr>batteryLevel := v\<rparr>) = calculateCapabilityScore d"
  "calculateCapabilityScore (d\<lparr>rssi := v\<rparr>) = calculateCapabilityScore d"
  "calculateCapabilityScore (d\<lparr>connectionStability := v\<rparr>) = calculateCapabilityScore d"
  by (simp_all add: calculateCapabilityScore_def Let_def)

lemma score_via_capability:
  "calculateLeadershipScore d =
     batteryLevel d / 100 * 0.4 + max 0 ((rssi d + 100) / 100) * 0.3 +
     connectionStability d * 0.2 + calculateCapabilityScore d * 0.1"
  by (simp add: calculateLeadershipScore_def Let_def BATTERY_WEIGHT_def RSSI_WEIGHT_def
      STABILITY_WEIGHT_def CAPABILITY_WEIGHT_def)

subsection \<open>Metrics\<close>

lemma foldl_add_sum_list:
  "foldl (\<lambda>acc x. acc + f x) a xs = (a::real) + sum_list (map f xs)"
  by (induction xs arbitrary: a) simp_all

lemma calculateAverageRssi_mean:
  "calculateAverageRssi ms =
     (if ms = [] then 0 else sum_list (map rssi ms) / real (length ms))"
  by (simp add: calculateAverageRssi_def foldl_add_sum_list)

lemma calculateTotalBattery_sum:
  "calculateTotalBattery ms = sum_list (map batteryLevel ms)"
  by (simp add: calculateTotalBattery_def foldl_add_sum_list)

subsection \<open>Sorting\<close>

lemma std_sort_post_length: "std_sort_post cmp xs ys \<Longrightarrow> length ys = length xs"
  unfolding std_sort_post_def by (metis size_mset)

lemma std_sort_post_set: "std_sort_post cmp xs ys \<Longrightarrow> set ys = set xs"
  unfolding std_sort_post_def by (metis set_mset_mset)



text \<open>The library's sort returns a permutation of its input.\<close>

lemma scan_backward_le: "scan_backward cmp v lst pivot \<le> lst"
proof (induction cmp v lst pivot rule: scan_backward.induct)
  case (1 cmp v lst pivot)
  show ?case
  proof (cases "0 < lst \<and> cmp (v ! pivot) (v ! lst)")
    case True
    with 1 have "scan_backward cmp v (lst - 1) pivot \<le> lst - 1" by simp
    with True show ?thesis by (subst scan_backward.simps) simp
  next
    case False
    then show ?thesis by (subst scan_backward.simps) auto
  qed
qed

lemma length_iter_swap [simp]: "length (iter_swap v i j) = length v"
  by (simp add: iter_swap_def)

lemma mset_iter_swap: "i < length v \<Longrightarrow> j < length v \<Longrightarrow> mset (iter_swap v i j) = mset v"
  unfolding iter_swap_def by (simp add: mset_swap)

lemma length_move_median_to_first [simp]:
  "length (move_median_to_first cmp v result a b c) = length v"
  by (simp add: move_median_to_first_def)

lemma mset_move_median_to_first:
  assumes "result < length v" "a < length v" "b < length v" "c < length v"
  shows "mset (move_median_to_first cmp v result a b c) = mset v"
  using assms by (simp add: move_median_to_first_def mset_iter_swap)

lemma scan_forward_le_length: "first \<le> length v \<Longrightarrow> scan_forward cmp v first pivot \<le> length v"
proof (induction cmp v first pivot rule: scan_forward.induct)
  case (1 cmp v first pivot)
  show ?case
  proof (cases "first < length v \<and> cmp (v ! first) (v ! pivot)")
    case True
    with 1 have "scan_forward cmp v (Suc first) pivot \<le> length v" by simp
    with True show ?thesis by (subst scan_forward.simps) simp
  next
    case False
    then show ?thesis using "1.prems" by (subst scan_forward.simps) auto
  qed
qed

lemma unguarded_partition_props:
  assumes "lst \<le> length v" "first \<le> length v"
  shows "length (fst (unguarded_partition cmp v first lst pivot)) = length v \<and>
         mset (fst (unguarded_partition cmp v first lst pivot)) = mset v \<and>
         snd (unguarded_partition cmp v first lst pivot) \<le> length v"
  using assms
proof (induction cmp v first lst pivot rule: unguarded_partition.induct)
  case (1 cmp v first lst pivot)
  define f where "f = scan_forward cmp v first pivot"
  define l where "l = scan_backward cmp v (lst - 1) pivot"
  have f_le: "f \<le> length v" unfolding f_def using "1.prems" by (simp add: scan_forward_le_length)
  have l_le: "l \<le> lst - 1" unfolding l_def by (rule scan_backward_le)
  show ?case
  proof (cases "f < l")
    case False
    then have "unguarded_partition cmp v first lst pivot = (v, f)"
      by (subst unguarded_partition.simps) (simp add: f_def l_def Let_def)
    then show ?thesis using f_le by simp
  next
    case True
    then have eq: "unguarded_partition cmp v first lst pivot =
        unguarded_partition cmp (iter_swap v f l) (Suc f) l pivot"
      by (subst unguarded_partition.simps) (simp add: f_def l_def Let_def)
    have l_lt: "l < length v" using True l_le "1.prems" by linarith
    have f_lt: "f < length v" using True l_lt by linarith
    have IH: "length (fst (unguarded_partition cmp (iter_swap v f l) (Suc f) l pivot)) = length (iter_swap v f l) \<and>
         mset (fst (unguarded_partition cmp (iter_swap v f l) (Suc f) l pivot)) = mset (iter_swap v f l) \<and>
         snd (unguarded_partition cmp (iter_swap v f l) (Suc f) l pivot) \<le> length (iter_swap v f l)"
      using "1.IH" [OF f_def refl l_def] True l_lt f_lt by simp
    then show ?thesis unfolding eq using mset_iter_swap [OF f_lt l_lt] by simp
  qed
qed

lemma unguarded_partition_pivot_props:
  assumes "lst \<le> length v" "first + 1 < lst"
  shows "length (fst (unguarded_partition_pivot cmp v first lst)) = length v \<and>
         mset (fst (unguarded_partition_pivot cmp v first lst)) = mset v \<and>
         snd (unguarded_partition_pivot cmp v first lst) \<le> length v"
proof -
  define mid where "mid = first + (lst - first) div 2"
  define w where "w = move_median_to_first cmp v first (first + 1) mid (lst - 1)"
  have "mid < lst" unfolding mid_def using assms by linarith
  then have "mset w = mset v" "length w = length v"
    unfolding w_def using assms by (simp_all add: mset_move_median_to_first)
  moreover have "unguarded_partition_pivot cmp v first lst = unguarded_partition cmp w (first + 1) lst first"
    by (simp add: unguarded_partition_pivot_def Let_def w_def mid_def)
  ultimately show ?thesis
    using unguarded_partition_props [of lst w "first + 1" cmp first] assms by simp
qed

lemma mset_hole_move:
  assumes "i < length v" "j < length v"
  shows "mset (v[i := v ! j, j := x]) = mset (v[i := x])"
proof (cases "i = j")
  case True
  then show ?thesis by simp
next
  case False
  define w where "w = v[i := x]"
  have "mset (w[j := w ! i, i := w ! j]) = mset w"
    using assms by (intro mset_swap) (simp_all add: w_def)
  moreover have "w[j := w ! i, i := w ! j] = v[i := v ! j, j := x]"
    using False assms by (simp add: w_def list_update_swap [of i j])
  ultimately show ?thesis by (simp add: w_def)
qed

lemma push_heap_props:
  assumes "first + holeIndex < length v"
  shows "length (push_heap cmp v first holeIndex topIndex val) = length v \<and>
         mset (push_heap cmp v first holeIndex topIndex val) = mset (v[first + holeIndex := val])"
  using assms
proof (induction cmp v first holeIndex topIndex val rule: push_heap.induct)
  case (1 cmp v first holeIndex topIndex val)
  define parent where "parent = (holeIndex - 1) div 2"
  show ?case
  proof (cases "holeIndex > topIndex \<and> cmp (v ! (first + parent)) val")
    case False
    then have "push_heap cmp v first holeIndex topIndex val = v[first + holeIndex := val]"
      by (subst push_heap.simps) (auto simp: parent_def Let_def)
    then show ?thesis by simp
  next
    case True
    define w where "w = v[first + holeIndex := v ! (first + parent)]"
    have eq: "push_heap cmp v first holeIndex topIndex val = push_heap cmp w first parent topIndex val"
      using True by (subst push_heap.simps) (simp add: parent_def Let_def w_def)
    have p: "parent < holeIndex" using True unfolding parent_def by linarith
    then have b: "first + parent < length v" using "1.prems" by linarith
    have "length (push_heap cmp w first parent topIndex val) = length w \<and>
          mset (push_heap cmp w first parent topIndex val) = mset (w[first + parent := val])"
      using "1.IH" [OF parent_def] True b unfolding w_def by simp
    moreover have "mset (w[first + parent := val]) = mset (v[first + holeIndex := val])"
      unfolding w_def using "1.prems" b by (rule mset_hole_move)
    ultimately show ?thesis unfolding eq by (simp add: w_def)
  qed
qed

lemma adjust_heap_descend_props:
  assumes "holeIndex < len" "first + len \<le> length v"
    and "adjust_heap_descend cmp v first holeIndex secondChild len = (w, h, sc)"
  shows "length w = length v \<and> h < len \<and>
         (\<forall>val. mset (w[first + h := val]) = mset (v[first + holeIndex := val]))"
  using assms
proof (induction cmp v first holeIndex secondChild len arbitrary: w h sc
    rule: adjust_heap_descend.induct)
  case (1 cmp v first holeIndex secondChild len)
  show ?case
  proof (cases "secondChild < (len - 1) div 2")
    case False
    then have "adjust_heap_descend cmp v first holeIndex secondChild len = (v, holeIndex, secondChild)"
      by (subst adjust_heap_descend.simps) simp
    with "1.prems" show ?thesis by simp
  next
    case True
    define c0 where "c0 = 2 * (secondChild + 1)"
    define c where "c = (if cmp (v ! (first + c0)) (v ! (first + (c0 - 1))) then c0 - 1 else c0)"
    define v' where "v' = v[first + holeIndex := v ! (first + c)]"
    have eq: "adjust_heap_descend cmp v first holeIndex secondChild len =
        adjust_heap_descend cmp v' first c c len"
      using True by (subst adjust_heap_descend.simps) (simp add: c0_def c_def v'_def Let_def)
    have "c0 < len" unfolding c0_def using True by presburger
    then have c_lt: "c < len" unfolding c_def by auto
    have run: "adjust_heap_descend cmp v' first c c len = (w, h, sc)"
      using "1.prems"(3) eq by simp
    have IH: "length w = length v' \<and> h < len \<and>
         (\<forall>val. mset (w[first + h := val]) = mset (v'[first + c := val]))"
      using "1.IH" [OF True c0_def c_def c_lt _ run [unfolded v'_def]] "1.prems"(2)
      by (simp add: v'_def)
    have "mset (v'[first + c := val]) = mset (v[first + holeIndex := val])" for val
      unfolding v'_def using "1.prems"(1,2) c_lt by (intro mset_hole_move) simp_all
    with IH show ?thesis by (simp add: v'_def)
  qed
qed

lemma adjust_heap_props:
  assumes "holeIndex < len" "first + len \<le> length v"
  shows "length (adjust_heap cmp v first holeIndex len val) = length v \<and>
         mset (adjust_heap cmp v first holeIndex len val) = mset (v[first + holeIndex := val])"
proof -
  obtain w h sc where d: "adjust_heap_descend cmp v first holeIndex holeIndex len = (w, h, sc)"
    by (cases "adjust_heap_descend cmp v first holeIndex holeIndex len") auto
  from adjust_heap_descend_props [OF assms d]
  have w: "length w = length v" "h < len"
    "\<And>x. mset (w[first + h := x]) = mset (v[first + holeIndex := x])" by auto
  show ?thesis
  proof (cases "even len \<and> 2 \<le> len \<and> sc = (len - 2) div 2")
    case False
    then have "adjust_heap cmp v first holeIndex len val = push_heap cmp w first h holeIndex val"
      by (auto simp: adjust_heap_def d Let_def)
    moreover have "first + h < length w" using w assms by simp
    ultimately show ?thesis using push_heap_props [of first h w cmp holeIndex val] w by simp
  next
    case True
    define k where "k = 2 * (sc + 1) - 1"
    define w' where "w' = w[first + h := w ! (first + k)]"
    have k: "k < len" unfolding k_def using True by (auto elim!: evenE)
    have eq: "adjust_heap cmp v first holeIndex len val = push_heap cmp w' first k holeIndex val"
      using True by (simp add: adjust_heap_def d Let_def w'_def k_def)
    have b: "first + k < length w" "first + h < length w" using k w assms by simp_all
    have "mset (w'[first + k := val]) = mset (w[first + h := val])"
      unfolding w'_def using b by (intro mset_hole_move) simp_all
    moreover have "length (push_heap cmp w' first k holeIndex val) = length w' \<and>
        mset (push_heap cmp w' first k holeIndex val) = mset (w'[first + k := val])"
      using b by (intro push_heap_props) (simp add: w'_def)
    ultimately show ?thesis unfolding eq using w by (simp add: w'_def)
  qed
qed

lemma pop_heap_props:
  assumes "first < lst" "lst \<le> length v" "result < length v"
  shows "length (pop_heap cmp v first lst result) = length v \<and>
         mset (pop_heap cmp v first lst result) = mset v"
proof -
  define w where "w = v[result := v ! first]"
  have "length (adjust_heap cmp w first 0 (lst - first) (v ! result)) = length w \<and>
      mset (adjust_heap cmp w first 0 (lst - first) (v ! result)) = mset (w[first + 0 := v ! result])"
    using assms by (intro adjust_heap_props) (simp_all add: w_def)
  moreover have "mset (w[first := v ! result]) = mset v"
    unfolding w_def using assms by (intro mset_swap) simp_all
  ultimately show ?thesis by (simp add: pop_heap_def Let_def w_def)
qed

lemma make_heap_loop_props:
  assumes "parent < len" "first + len \<le> length v"
  shows "length (make_heap_loop cmp v first len parent) = length v \<and>
         mset (make_heap_loop cmp v first len parent) = mset v"
  using assms
proof (induction cmp v first len parent rule: make_heap_loop.induct)
  case (1 cmp v first len parent)
  define w where "w = adjust_heap cmp v first parent len (v ! (first + parent))"
  have w: "length w = length v" "mset w = mset v"
    unfolding w_def using adjust_heap_props [OF "1.prems", of cmp "v ! (first + parent)"] by simp_all
  show ?case
  proof (cases "parent = 0")
    case True
    then have "make_heap_loop cmp v first len parent = w"
      by (subst make_heap_loop.simps) (simp add: w_def Let_def)
    with w show ?thesis by simp
  next
    case False
    then have eq: "make_heap_loop cmp v first len parent = make_heap_loop cmp w first len (parent - 1)"
      by (subst make_heap_loop.simps) (simp add: w_def Let_def)
    have "length (make_heap_loop cmp w first len (parent - 1)) = length w \<and>
        mset (make_heap_loop cmp w first len (parent - 1)) = mset w"
      using "1.IH" [OF refl w_def False] "1.prems" w by simp
    with w show ?thesis unfolding eq by simp
  qed
qed

lemma make_heap_props:
  assumes "lst \<le> length v" "first \<le> lst"
  shows "length (make_heap cmp v first lst) = length v \<and> mset (make_heap cmp v first lst) = mset v"
proof (cases "lst - first < 2")
  case True
  then show ?thesis by (simp add: make_heap_def)
next
  case False
  then have "(lst - first - 2) div 2 < lst - first" by linarith
  moreover have "first + (lst - first) \<le> length v" using assms by simp
  ultimately show ?thesis using False
    by (simp add: make_heap_def Let_def make_heap_loop_props)
qed

lemma sort_heap_props:
  assumes "lst \<le> length v"
  shows "length (sort_heap cmp v first lst) = length v \<and> mset (sort_heap cmp v first lst) = mset v"
  using assms
proof (induction cmp v first lst rule: sort_heap.induct)
  case (1 cmp v first lst)
  show ?case
  proof (cases "lst - first > 1")
    case False
    then show ?thesis by (subst (1 2) sort_heap.simps) simp
  next
    case True
    define w where "w = pop_heap cmp v first (lst - 1) (lst - 1)"
    have eq: "sort_heap cmp v first lst = sort_heap cmp w first (lst - 1)"
      using True by (subst sort_heap.simps) (simp add: w_def Let_def)
    have w: "length w = length v \<and> mset w = mset v"
      unfolding w_def using True "1.prems" by (intro pop_heap_props) linarith+
    then have "length (sort_heap cmp w first (lst - 1)) = length w \<and>
        mset (sort_heap cmp w first (lst - 1)) = mset w"
      using "1.IH" [OF True refl] "1.prems" by (simp add: w_def)
    with w show ?thesis unfolding eq by simp
  qed
qed

lemma partial_sort_props:
  assumes "lst \<le> length v" "first \<le> lst"
  shows "length (partial_sort cmp v first lst lst) = length v \<and>
         mset (partial_sort cmp v first lst lst) = mset v"
proof -
  have "heap_select cmp v first lst lst = make_heap cmp v first lst"
    by (simp add: heap_select_def)
  then show ?thesis
    using make_heap_props [OF assms, of cmp]
      sort_heap_props [of lst "make_heap cmp v first lst" cmp first] assms
    by (simp add: partial_sort_def)
qed

lemma introsort_loop_props:
  assumes "lst \<le> length v"
  shows "length (introsort_loop cmp v first lst depth_limit) = length v \<and>
         mset (introsort_loop cmp v first lst depth_limit) = mset v"
  using assms
proof (induction cmp v first lst depth_limit rule: introsort_loop.induct)
  case (1 cmp v first lst depth_limit)
  show ?case
  proof (cases "lst - first > S_threshold")
    case False
    then show ?thesis by (subst (1 2) introsort_loop.simps) simp
  next
    case big: True
    show ?thesis
    proof (cases "depth_limit = 0")
      case True
      then have "introsort_loop cmp v first lst depth_limit = partial_sort cmp v first lst lst"
        using big by (subst introsort_loop.simps) simp
      moreover have "first \<le> lst" using big by simp
      ultimately show ?thesis using partial_sort_props [OF "1.prems"] by simp
    next
      case False
      obtain w cut where p: "unguarded_partition_pivot cmp v first lst = (w, cut)"
        by (cases "unguarded_partition_pivot cmp v first lst") auto
      have "first + 1 < lst" using big by (simp add: S_threshold_def)
      from unguarded_partition_pivot_props [OF "1.prems" this, of cmp] p
      have w: "length w = length v" "mset w = mset v" "cut \<le> length v" by simp_all
      define u where "u = introsort_loop cmp w cut lst (depth_limit - 1)"
      have eq: "introsort_loop cmp v first lst depth_limit =
          introsort_loop cmp u first cut (depth_limit - 1)"
        using big False by (subst introsort_loop.simps) (simp add: p u_def Let_def)
      have u: "length u = length w \<and> mset u = mset w"
        unfolding u_def using "1.IH"(1) [OF big False refl p [symmetric] refl] "1.prems" w
        by simp
      have "length (introsort_loop cmp u first cut (depth_limit - 1)) = length u \<and>
          mset (introsort_loop cmp u first cut (depth_limit - 1)) = mset u"
        using "1.IH"(2) [OF big False refl p [symmetric] refl u_def] u w by simp
      with u w show ?thesis unfolding eq by simp
    qed
  qed
qed

text \<open>Its final insertion pass leaves the vector in order, whatever came before.\<close>

lemma foldl_upt_invariant:
  assumes "a \<le> b" and "P a v"
    and step: "\<And>i w. a \<le> i \<Longrightarrow> i < b \<Longrightarrow> P i w \<Longrightarrow> P (Suc i) (f w i)"
  shows "P b (foldl f v [a..<b])"
  using assms(1)
proof (induction rule: dec_induct)
  case base
  show ?case using assms(2) by simp
next
  case (step n)
  then show ?case using assms(3) [of n "foldl f v [a..<n]"] by simp
qed

lemma unguarded_linear_insert_loop_eq:
  "i < length v \<Longrightarrow>
   unguarded_linear_insert_loop cmp v i x =
     rev (dropWhile (cmp x) (rev (take i v))) @ x # rev (takeWhile (cmp x) (rev (take i v)))
       @ drop (Suc i) v"
proof (induction i arbitrary: v)
  case 0
  then show ?case
    by (subst unguarded_linear_insert_loop.simps) (simp add: upd_conv_take_nth_drop)
next
  case (Suc k)
  have t: "take (Suc k) v = take k v @ [v ! k]"
    using Suc.prems by (simp add: take_Suc_conv_app_nth)
  show ?case
  proof (cases "cmp x (v ! k)")
    case False
    then have "unguarded_linear_insert_loop cmp v (Suc k) x = v[Suc k := x]"
      by (subst unguarded_linear_insert_loop.simps) simp
    also have "\<dots> = take (Suc k) v @ x # drop (Suc (Suc k)) v"
      using Suc.prems by (rule upd_conv_take_nth_drop)
    finally show ?thesis using False by (simp add: t)
  next
    case True
    define w where "w = v[Suc k := v ! k]"
    have "unguarded_linear_insert_loop cmp v (Suc k) x = unguarded_linear_insert_loop cmp w k x"
      using True by (subst unguarded_linear_insert_loop.simps) (simp add: w_def)
    also have "\<dots> = rev (dropWhile (cmp x) (rev (take k w))) @ x #
        rev (takeWhile (cmp x) (rev (take k w))) @ drop (Suc k) w"
      using Suc.prems by (intro Suc.IH) (simp add: w_def)
    also have "take k w = take k v" by (simp add: w_def)
    also have "drop (Suc k) w = v ! k # drop (Suc (Suc k)) v"
      using Suc.prems by (simp add: w_def drop_update_cancel Cons_nth_drop_Suc [symmetric]
          del: drop_Suc_Cons)
    finally show ?thesis using True by (simp add: t)
  qed
qed

lemma linear_insert_snoc:
  "rev (dropWhile (cmp x) (rev (p @ [y]))) @ x # rev (takeWhile (cmp x) (rev (p @ [y]))) =
     (if cmp x y then (rev (dropWhile (cmp x) (rev p)) @ x # rev (takeWhile (cmp x) (rev p))) @ [y]
      else p @ [y, x])"
  by simp

lemma mset_linear_insert:
  "mset (rev (dropWhile (cmp x) (rev p)) @ x # rev (takeWhile (cmp x) (rev p))) =
     add_mset x (mset p)"
proof -
  have "mset (takeWhile (cmp x) (rev p)) + mset (dropWhile (cmp x) (rev p)) = mset (rev p)"
    by (metis mset_append takeWhile_dropWhile_id)
  then show ?thesis by (simp add: add.commute)
qed

lemma length_linear_insert:
  "length (rev (dropWhile (cmp x) (rev p)) @ x # rev (takeWhile (cmp x) (rev p))) = Suc (length p)"
  using arg_cong [OF mset_linear_insert [of cmp x p], of size] by simp

lemma sorted_linear_insert:
  assumes cmp: "\<And>a b. cmp a b \<longleftrightarrow> key b < key a"
    and "sorted_wrt (\<lambda>a b. key b \<le> (key a :: 'k :: linorder)) p"
  shows "sorted_wrt (\<lambda>a b. key b \<le> key a)
           (rev (dropWhile (cmp x) (rev p)) @ x # rev (takeWhile (cmp x) (rev p)))"
  using assms(2)
proof (induction p rule: rev_induct)
  case Nil
  show ?case by simp
next
  case (snoc y p)
  from snoc.prems have sp: "sorted_wrt (\<lambda>a b. key b \<le> key a) p"
    and le: "\<forall>a\<in>set p. key y \<le> key a"
    by (simp_all add: sorted_wrt_append)
  show ?case
  proof (cases "cmp x y")
    case True
    let ?q = "rev (dropWhile (cmp x) (rev p)) @ x # rev (takeWhile (cmp x) (rev p))"
    have "set ?q = insert x (set p)"
      using arg_cong [OF mset_linear_insert [of cmp x p], of set_mset] by simp
    moreover have "key y \<le> key x" using True cmp by simp
    ultimately have "\<forall>a\<in>set ?q. key y \<le> key a" using le by simp
    with snoc.IH [OF sp] have "sorted_wrt (\<lambda>a b. key b \<le> key a) (?q @ [y])"
      by (simp add: sorted_wrt_append)
    then show ?thesis using True by (simp only: linear_insert_snoc if_True)
  next
    case False
    then have "key x \<le> key y" using cmp by (simp add: not_less)
    with le have "\<forall>a\<in>set p. key x \<le> key a" by auto
    then have "sorted_wrt (\<lambda>a b. key b \<le> key a) (p @ [y, x])"
      using snoc.prems \<open>key x \<le> key y\<close> by (simp add: sorted_wrt_append)
    then show ?thesis using False by (simp only: linear_insert_snoc if_False)
  qed
qed

lemma take_length_append: "length q = n \<Longrightarrow> take n (q @ r) = q"
  by simp

lemma unguarded_linear_insert_props:
  assumes cmp: "\<And>a b. cmp a b \<longleftrightarrow> key b < key a"
    and i: "i < length w"
    and s: "sorted_wrt (\<lambda>a b. key b \<le> (key a :: 'k :: linorder)) (take i w)"
  shows "length (unguarded_linear_insert cmp w i) = length w \<and>
         mset (unguarded_linear_insert cmp w i) = mset w \<and>
         sorted_wrt (\<lambda>a b. key b \<le> key a) (take (Suc i) (unguarded_linear_insert cmp w i))"
proof -
  define x where "x = w ! i"
  define q where "q = rev (dropWhile (cmp x) (rev (take i w))) @ x #
      rev (takeWhile (cmp x) (rev (take i w)))"
  have eq: "unguarded_linear_insert cmp w i = q @ drop (Suc i) w"
    using unguarded_linear_insert_loop_eq [OF i, of cmp x]
    by (simp add: unguarded_linear_insert_def q_def x_def)
  have len: "length q = Suc i"
    unfolding q_def using length_linear_insert [of cmp x "take i w"] i by simp
  have mq: "mset q = add_mset x (mset (take i w))"
    unfolding q_def by (rule mset_linear_insert)
  have "mset (q @ drop (Suc i) w) = mset (take i w @ x # drop (Suc i) w)"
    by (simp add: mq)
  also have "\<dots> = mset w" using id_take_nth_drop [OF i] by (simp add: x_def)
  finally have m: "mset (q @ drop (Suc i) w) = mset w" .
  have sq: "sorted_wrt (\<lambda>a b. key b \<le> key a) q"
    unfolding q_def using cmp s by (rule sorted_linear_insert)
  have tk: "take (Suc i) (q @ drop (Suc i) w) = q" using len by (rule take_length_append)
  have ln: "length (q @ drop (Suc i) w) = length w" using len i by simp
  show ?thesis unfolding eq tk using ln m sq by simp
qed

lemma move_backward_insert_props:
  assumes cmp: "\<And>a b. cmp a b \<longleftrightarrow> key b < key a"
    and i: "0 < i" "i < length w"
    and front: "cmp (w ! i) (w ! 0)"
    and s: "sorted_wrt (\<lambda>a b. key b \<le> (key a :: 'k :: linorder)) (take i w)"
  shows "length (move_backward_insert w 0 i) = length w \<and>
         mset (move_backward_insert w 0 i) = mset w \<and>
         sorted_wrt (\<lambda>a b. key b \<le> key a) (take (Suc i) (move_backward_insert w 0 i))"
proof -
  have eq: "move_backward_insert w 0 i = (w ! i # take i w) @ drop (Suc i) w"
    by (simp add: move_backward_insert_def)
  have "mset ((w ! i # take i w) @ drop (Suc i) w) = mset (take i w @ w ! i # drop (Suc i) w)"
    by simp
  also have "\<dots> = mset w" using id_take_nth_drop [OF i(2)] by simp
  finally have m: "mset ((w ! i # take i w) @ drop (Suc i) w) = mset w" .
  have t: "take i w = w ! 0 # tl (take i w)"
    using i by (cases w; cases i) simp_all
  have "\<forall>a\<in>set (take i w). key a \<le> key (w ! 0)"
    using s by (subst (asm) t, subst t) auto
  moreover have "key (w ! 0) < key (w ! i)" using front cmp by simp
  ultimately have "\<forall>a\<in>set (take i w). key a \<le> key (w ! i)" by fastforce
  then have "sorted_wrt (\<lambda>a b. key b \<le> key a) (w ! i # take i w)" using s by simp
  moreover have "take (Suc i) ((w ! i # take i w) @ drop (Suc i) w) = w ! i # take i w"
    using i by (intro take_length_append) simp
  moreover have "length ((w ! i # take i w) @ drop (Suc i) w) = length w" using i by simp
  ultimately show ?thesis using m unfolding eq by (simp del: take_Suc_Cons append_Cons)
qed

lemma insertion_sort_props:
  assumes cmp: "\<And>a b. cmp a b \<longleftrightarrow> key b < key a"
    and n: "n \<le> length v"
  shows "length (insertion_sort cmp v 0 n) = length v \<and>
         mset (insertion_sort cmp v 0 n) = mset v \<and>
         sorted_wrt (\<lambda>a b. key b \<le> (key a :: 'k :: linorder)) (take n (insertion_sort cmp v 0 n))"
proof (cases "n = 0")
  case True
  then show ?thesis by (simp add: insertion_sort_def)
next
  case False
  let ?step = "\<lambda>w i. if cmp (w ! i) (w ! 0) then move_backward_insert w 0 i
                        else unguarded_linear_insert cmp w i"
  let ?P = "\<lambda>i w. length w = length v \<and> mset w = mset v \<and>
                   sorted_wrt (\<lambda>a b. key b \<le> key a) (take i w)"
  have "?P n (foldl ?step v [1..<n])"
  proof (rule foldl_upt_invariant)
    show "1 \<le> n" using False by simp
    show "?P 1 v" by (cases v) simp_all
  next
    fix i w assume i: "1 \<le> i" "i < n" and P: "?P i w"
    then have il: "i < length w" "0 < i" using n by simp_all
    show "?P (Suc i) (?step w i)"
    proof (cases "cmp (w ! i) (w ! 0)")
      case True
      with move_backward_insert_props [OF cmp il(2,1) True] P show ?thesis by simp
    next
      case False
      with unguarded_linear_insert_props [OF cmp il(1)] P show ?thesis by simp
    qed
  qed
  then show ?thesis using False by (simp add: insertion_sort_def)
qed

lemma unguarded_insertion_sort_props:
  assumes cmp: "\<And>a b. cmp a b \<longleftrightarrow> key b < key a"
    and n: "a \<le> n" "n \<le> length v"
    and s: "sorted_wrt (\<lambda>a b. key b \<le> (key a :: 'k :: linorder)) (take a v)"
  shows "length (unguarded_insertion_sort cmp v a n) = length v \<and>
         mset (unguarded_insertion_sort cmp v a n) = mset v \<and>
         sorted_wrt (\<lambda>a b. key b \<le> key a) (take n (unguarded_insertion_sort cmp v a n))"
proof -
  let ?P = "\<lambda>i w. length w = length v \<and> mset w = mset v \<and>
                   sorted_wrt (\<lambda>a b. key b \<le> key a) (take i w)"
  have "?P n (foldl (\<lambda>w i. unguarded_linear_insert cmp w i) v [a..<n])"
  proof (rule foldl_upt_invariant)
    show "a \<le> n" by (rule n)
    show "?P a v" using s by simp
  next
    fix i w assume i: "a \<le> i" "i < n" and P: "?P i w"
    then have il: "i < length w" using n by simp
    from unguarded_linear_insert_props [OF cmp il] P
    show "?P (Suc i) (unguarded_linear_insert cmp w i)" by simp
  qed
  then show ?thesis by (simp add: unguarded_insertion_sort_def)
qed

lemma final_insertion_sort_props:
  assumes cmp: "\<And>a b. cmp a b \<longleftrightarrow> key b < key a"
    and n: "n \<le> length v"
  shows "length (final_insertion_sort cmp v 0 n) = length v \<and>
         mset (final_insertion_sort cmp v 0 n) = mset v \<and>
         sorted_wrt (\<lambda>a b. key b \<le> (key a :: 'k :: linorder)) (take n (final_insertion_sort cmp v 0 n))"
proof (cases "n > S_threshold")
  case False
  then show ?thesis using insertion_sort_props [OF cmp n] by (simp add: final_insertion_sort_def)
next
  case True
  define w where "w = insertion_sort cmp v 0 S_threshold"
  have "S_threshold \<le> length v" using True n by simp
  from insertion_sort_props [OF cmp this]
  have w: "length w = length v" "mset w = mset v"
    "sorted_wrt (\<lambda>a b. key b \<le> key a) (take S_threshold w)"
    by (simp_all add: w_def)
  have "S_threshold \<le> n" "n \<le> length w" using True n w by simp_all
  from unguarded_insertion_sort_props [OF cmp this w(3)] w True
  show ?thesis by (simp add: final_insertion_sort_def w_def)
qed

lemma libstdcxx_sort_props:
  assumes cmp: "\<And>a b. cmp a b \<longleftrightarrow> key b < key a"
  shows "mset (libstdcxx_sort cmp v) = mset v \<and>
         sorted_wrt (\<lambda>a b. key b \<le> (key a :: 'k :: linorder)) (libstdcxx_sort cmp v)"
proof (cases "v = []")
  case True
  then show ?thesis by (simp add: libstdcxx_sort_def)
next
  case False
  define w where "w = introsort_loop cmp v 0 (length v) (lg (length v) * 2)"
  have w: "length w = length v" "mset w = mset v"
    using introsort_loop_props [of "length v" v cmp 0] by (simp_all add: w_def)
  have lw: "length v \<le> length w" using w by simp
  define u where "u = final_insertion_sort cmp w 0 (length v)"
  from final_insertion_sort_props [of cmp key "length v" w, OF cmp lw]
  have u: "length u = length w" "mset u = mset w"
    "sorted_wrt (\<lambda>a b. key b \<le> key a) (take (length v) u)"
    by (simp_all add: u_def)
  have "take (length v) u = u" using u(1) w(1) by simp
  with u w have "mset u = mset v \<and> sorted_wrt (\<lambda>a b. key b \<le> key a) u" by simp
  then show ?thesis using False by (simp add: libstdcxx_sort_def Let_def w_def u_def)
qed








lemma libstdcxx_sort_meets_post:
  "std_sort_post rssi_greater devices (libstdcxx_sort rssi_greater devices)"
proof -
  have cmp: "\<And>a b. rssi_greater a b \<longleftrightarrow> rssi b < rssi a" by (simp add: rssi_greater_def)
  from libstdcxx_sort_props [of rssi_greater rssi devices, OF cmp]
  show ?thesis by (simp add: std_sort_post_def rssi_greater_def not_less)
qed

subsection \<open>Formation and optimization\<close>

lemma resize_is_take: "(if length xs > n then take n xs else xs) = take n xs"
  by simp

lemma leader_choice_mem:
  assumes "(case electLeader s of Some l \<Rightarrow> Inr l | None \<Rightarrow> vector_at s 0) = Inr l"
  shows "l \<in> set s"
proof (cases "electLeader s")
  case None
  with assms have "0 < length s" "l = s ! 0"
    by (auto simp: vector_at_def split: if_splits)
  then show ?thesis by simp
next
  case (Some e)
  with assms have "electLeader s = Some l" by simp
  then show ?thesis by (rule electLeader_Some_mem)
qed

lemma formCluster_Inr:
  assumes "formCluster std_sort id_clock id_draw now devices n = Inr c"
  shows "devices \<noteq> []"
    and "members c = take n (std_sort rssi_greater devices)"
    and "leader c \<in> set (members c)"
    and "cluster_id c = generateClusterId id_clock id_draw"
    and "formationTime c = now"
    and "maxSize c = n"
    and "averageRssi c = calculateAverageRssi (members c)"
    and "totalBatteryLevel c = calculateTotalBattery (members c)"
proof -
  let ?s = "take n (std_sort rssi_greater devices)"
  let ?choice = "case electLeader ?s of Some l \<Rightarrow> Inr l | None \<Rightarrow> vector_at ?s 0"
  from assms show ne: "devices \<noteq> []"
    by (auto simp: formCluster_def)
  with assms obtain l where l: "?choice = Inr l"
    and c: "c = \<lparr> cluster_id = generateClusterId id_clock id_draw, leader = l, members = ?s,
                 formationTime = now, maxSize = n, averageRssi = calculateAverageRssi ?s,
                 totalBatteryLevel = calculateTotalBattery ?s \<rparr>"
    by (auto simp only: formCluster_def Let_def resize_is_take if_False split: sum.splits)
  from c show "members c = ?s" "cluster_id c = generateClusterId id_clock id_draw"
    "formationTime c = now" "maxSize c = n"
    "averageRssi c = calculateAverageRssi (members c)"
    "totalBatteryLevel c = calculateTotalBattery (members c)"
    by simp_all
  from leader_choice_mem [OF l] c show "leader c \<in> set (members c)" by simp
qed

lemma formCluster_InvalidInput_iff:
  "formCluster std_sort id_clock id_draw now devices n = Inl InvalidInput \<longleftrightarrow> devices = []"
  by (auto simp: formCluster_def Let_def vector_at_def split: if_splits option.splits sum.splits)

lemma formCluster_returns:
  assumes "devices \<noteq> []" and "take n (std_sort rssi_greater devices) \<noteq> []"
  shows "\<exists>c. formCluster std_sort id_clock id_draw now devices n = Inr c"
  using assms
  by (auto simp: formCluster_def Let_def vector_at_def split: option.splits sum.splits)

lemma optimizeCluster_members:
  "members (optimizeCluster T c) = filter (\<lambda>device. \<not> batteryLevel device < T) (members c)"
  by (simp add: optimizeCluster_def Let_def split: option.splits)

lemma optimizeCluster_frame:
  "cluster_id (optimizeCluster T c) = cluster_id c"
  "formationTime (optimizeCluster T c) = formationTime c"
  "maxSize (optimizeCluster T c) = maxSize c"
  by (simp_all add: optimizeCluster_def Let_def split: option.splits)

lemma optimizeCluster_metrics:
  "averageRssi (optimizeCluster T c) = calculateAverageRssi (members (optimizeCluster T c))"
  "totalBatteryLevel (optimizeCluster T c) = calculateTotalBattery (members (optimizeCluster T c))"
  by (simp_all add: optimizeCluster_def Let_def split: option.splits)

lemma optimizeCluster_leader:
  "leader (optimizeCluster T c) =
     (let kept = filter (\<lambda>device. \<not> batteryLevel device < T) (members c)
      in if (\<exists>m\<in>set kept. device_id m = device_id (leader c)) then leader c
         else case electLeader kept of Some l \<Rightarrow> l | None \<Rightarrow> leader c)"
proof -
  let ?kept = "filter (\<lambda>device. \<not> batteryLevel device < T) (members c)"
  have "find (\<lambda>device. device_id device = device_id (leader c)) ?kept = None \<longleftrightarrow>
          \<not> (\<exists>m\<in>set ?kept. device_id m = device_id (leader c))"
    by (simp add: find_None_iff)
  moreover have "?kept = [] \<Longrightarrow> electLeader ?kept = None"
    by (simp add: electLeader_def electLeader_with_def)
  ultimately show ?thesis
    by (cases "?kept = []"; simp add: optimizeCluster_def Let_def split: option.splits; blast)
qed

lemma optimizeCluster_leader_identity:
  assumes "\<exists>m\<in>set (members (optimizeCluster T c)).
             device_id m = device_id (leader c) \<or> - 1 < calculateLeadershipScore m"
  shows "\<exists>m\<in>set (members (optimizeCluster T c)). device_id m = device_id (leader (optimizeCluster T c))"
proof -
  let ?kept = "filter (\<lambda>device. \<not> batteryLevel device < T) (members c)"
  have kept: "members (optimizeCluster T c) = ?kept" by (rule optimizeCluster_members)
  show ?thesis
  proof (cases "\<exists>m\<in>set ?kept. device_id m = device_id (leader c)")
    case True
    then show ?thesis unfolding kept by (simp add: optimizeCluster_leader)
  next
    case False
    with assms kept have "\<exists>m\<in>set ?kept. - 1 < calculateLeadershipScore m" by auto
    then have "electLeader ?kept \<noteq> None"
      by (simp add: electLeader_None_iff not_le)
    then obtain l where l: "electLeader ?kept = Some l" by blast
    then have "l \<in> set ?kept" by (rule electLeader_Some_mem)
    moreover have "leader (optimizeCluster T c) = l"
      using False l by (simp add: optimizeCluster_leader; blast)
    ultimately show ?thesis unfolding kept by blast
  qed
qed


lemma optimizeCluster_all_pruned:
  assumes "\<forall>d\<in>set (members c). batteryLevel d < T"
  shows "members (optimizeCluster T c) = []"
    and "averageRssi (optimizeCluster T c) = 0"
    and "totalBatteryLevel (optimizeCluster T c) = 0"
proof -
  have "filter (\<lambda>d. \<not> batteryLevel d < T) (members c) = []"
    using assms by (simp add: filter_empty_conv)
  then show e: "members (optimizeCluster T c) = []" by (simp add: optimizeCluster_members)
  show "averageRssi (optimizeCluster T c) = 0"
    by (simp add: optimizeCluster_metrics e calculateAverageRssi_def)
  show "totalBatteryLevel (optimizeCluster T c) = 0"
    by (simp add: optimizeCluster_metrics e calculateTotalBattery_def)
qed

subsection \<open>The examples, evaluated\<close>

lemmas example_defs = device_A_def device_B_def device_C_def

lemmas sort_eval = libstdcxx_sort_def final_insertion_sort_def unguarded_insertion_sort_def
  insertion_sort_def move_backward_insert_def unguarded_linear_insert_def
  unguarded_linear_insert_loop.simps introsort_loop.simps S_threshold_def
  unguarded_partition_pivot_def unguarded_partition.simps scan_forward.simps scan_backward.simps
  move_median_to_first_def iter_swap_def lg.simps Let_def rssi_greater_def upt_conv_Cons

lemmas eval_defs = formCluster_def rssi_greater_def electLeader_def electLeader_with_def
  vector_at_def calculateAverageRssi_def calculateTotalBattery_def score_defs
  optimizeCluster_def std_sort_post_def

lemma scores_ABC:
  "calculateLeadershipScore device_A = 0.5725"
  "calculateLeadershipScore device_B = 0.59"
  "calculateLeadershipScore device_C = 0.58"
  by (simp_all add: example_defs score_defs)

lemma formCluster_ABC:
  "formCluster libstdcxx_sort 17 1234 18 [device_A, device_B, device_C] 2 = Inr cluster_BA"
  by (simp add: cluster_BA_def example_defs eval_defs sort_eval)

lemma optimize_BA_50:
  "optimizeCluster 50 cluster_BA =
     cluster_BA \<lparr> leader := device_A, members := [device_A], averageRssi := - 40,
                  totalBatteryLevel := 90 \<rparr>"
  by (simp add: cluster_BA_def example_defs eval_defs)

lemma valid_ABC: "valid_device device_A" "valid_device device_B" "valid_device device_C"
  by (simp_all add: valid_device_def example_defs)

lemma sorted_ABC:
  "std_sort_post rssi_greater [device_A, device_B, device_C]
     (libstdcxx_sort rssi_greater [device_A, device_B, device_C])"
  by (rule libstdcxx_sort_meets_post)

lemma rssi_tied [simp]: "rssi (tied_device k) = - 50"
  by (simp add: tied_device_def)

lemma tied_device_inject [simp]: "tied_device i = tied_device j \<longleftrightarrow> i = j"
proof
  assume "tied_device i = tied_device j"
  then have "batteryLevel (tied_device i) = batteryLevel (tied_device j)" by simp
  then show "i = j" by (simp add: tied_device_def)
qed simp

lemma valid_tied: "k \<le> 16 \<Longrightarrow> valid_device (tied_device k)"
  by (simp add: valid_device_def tied_device_def)



lemmas example_defs2 = device_X_def device_L_def device_P_def device_Q_def

subsection \<open>Outside the documented domain\<close>

text \<open>
  No claim below speaks about devices outside their documented domain. What the code does
  there: a device whose score is not above -1, the score the election starts from, is not
  elected, so the election over \<open>device_X\<close> alone returns nothing, and optimizing
  \<open>cluster_LX\<close> (at any threshold in (0, 100]) prunes the leader \<open>device_L\<close> and keeps it
  as leader of a cluster it is no longer a member of.
\<close>

lemma election_outside_domain:
  "\<not> valid_device device_X \<and> calculateLeadershipScore device_X = - 1.565 \<and>
   electLeader [device_X] = None"
  by (simp add: example_defs2 valid_device_def electLeader_def electLeader_with_def score_defs)

lemma stale_leader_outside_domain:
  assumes "0 < T" and "T \<le> 100"
  shows "members (optimizeCluster T cluster_LX) = [device_X] \<and>
         leader (optimizeCluster T cluster_LX) = device_L"
  using assms by (simp add: cluster_LX_def example_defs2 eval_defs)

section \<open>The claims\<close>

subsection \<open>C1\<close>

text \<open>
  Claim C1. Called with a non-empty device list and a maximum size of at least 1,
  \<open>formCluster\<close> returns a cluster whose leader is an element of its members. In every
  cluster returned by \<open>optimizeCluster\<close> whose pruned member list is not empty, the leader
  has the id of one of the members, provided that the members of the input cluster are
  devices within their documented domains.
\<close>

theorem leader_among_members:
  "(devices \<noteq> [] \<and> 1 \<le> n \<and> std_sort_post rssi_greater devices (std_sort rssi_greater devices)
      \<longrightarrow> (\<exists>c. formCluster std_sort id_clock id_draw now devices n = Inr c \<and>
                leader c \<in> set (members c))) \<and>
   (members (optimizeCluster T k) \<noteq> [] \<and> (\<forall>m\<in>set (members k). valid_device m) \<longrightarrow>
    (\<exists>m\<in>set (members (optimizeCluster T k)).
        device_id m = device_id (leader (optimizeCluster T k))))"
proof (intro conjI impI)
  assume a: "devices \<noteq> [] \<and> 1 \<le> n \<and>
    std_sort_post rssi_greater devices (std_sort rssi_greater devices)"
  then have "length (std_sort rssi_greater devices) = length devices"
    by (auto dest: std_sort_post_length)
  with a have "take n (std_sort rssi_greater devices) \<noteq> []" by auto
  with a obtain c where c: "formCluster std_sort id_clock id_draw now devices n = Inr c"
    using formCluster_returns by blast
  then have "leader c \<in> set (members c)" by (rule formCluster_Inr(3))
  with c show "\<exists>c. formCluster std_sort id_clock id_draw now devices n = Inr c \<and>
      leader c \<in> set (members c)" by blast
next
  assume a: "members (optimizeCluster T k) \<noteq> [] \<and> (\<forall>m\<in>set (members k). valid_device m)"
  then obtain m where m: "m \<in> set (members (optimizeCluster T k))"
    by (cases "members (optimizeCluster T k)") auto
  then have "m \<in> set (members k)" by (simp add: optimizeCluster_members)
  with a have "0 \<le> calculateLeadershipScore m" by (simp add: valid_device_score_nonneg)
  then have "- 1 < calculateLeadershipScore m" by simp
  with m have "\<exists>m\<in>set (members (optimizeCluster T k)).
            device_id m = device_id (leader k) \<or> - 1 < calculateLeadershipScore m" by blast
  then show "\<exists>m\<in>set (members (optimizeCluster T k)).
               device_id m = device_id (leader (optimizeCluster T k))"
    by (rule optimizeCluster_leader_identity)
qed

theorem leader_among_members_witness:
  "[device_A, device_B, device_C] \<noteq> [] \<and> (1::nat) \<le> 2 \<and>
   std_sort_post rssi_greater [device_A, device_B, device_C]
     (libstdcxx_sort rssi_greater [device_A, device_B, device_C]) \<and>
   formCluster libstdcxx_sort 17 1234 18 [device_A, device_B, device_C] 2 = Inr cluster_BA \<and>
   leader cluster_BA \<in> set (members cluster_BA) \<and>
   members (optimizeCluster 50 cluster_BA) = [device_A] \<and>
   valid_device device_A \<and> valid_device device_B \<and>
   device_id (leader (optimizeCluster 50 cluster_BA)) = device_id device_A"
proof -
  note t = leader_among_members [of "[device_A, device_B, device_C]" 2 libstdcxx_sort
      17 1234 18 50 cluster_BA]
  have ne: "[device_A, device_B, device_C] \<noteq> []" by simp
  have one: "(1::nat) \<le> 2" by simp
  have "\<exists>c. formCluster libstdcxx_sort 17 1234 18 [device_A, device_B, device_C] 2 = Inr c \<and>
      leader c \<in> set (members c)"
    using t ne one sorted_ABC by blast
  then have l: "leader cluster_BA \<in> set (members cluster_BA)"
    by (simp add: formCluster_ABC)
  have o: "members (optimizeCluster 50 cluster_BA) = [device_A]"
    by (simp add: optimize_BA_50)
  have v: "\<forall>m\<in>set (members cluster_BA). valid_device m"
    by (simp add: cluster_BA_def valid_ABC)
  have "\<exists>m\<in>set (members (optimizeCluster 50 cluster_BA)).
      device_id m = device_id (leader (optimizeCluster 50 cluster_BA))"
    using t o v by simp
  then have i: "device_id (leader (optimizeCluster 50 cluster_BA)) = device_id device_A"
    unfolding o by simp
  from ne one sorted_ABC formCluster_ABC l o valid_ABC(1,2) i show ?thesis by blast
qed

subsection \<open>C2\<close>




subsection \<open>C3\<close>



subsection \<open>C4\<close>

text \<open>
  Claim C4. The leadership score of a device is
  0.4 * (batteryLevel / 100) + 0.3 * max(0, (rssi + 100) / 100) + 0.2 * connectionStability
  + 0.1 * capability, where capability is the minimum of 1 and the sum of
  0.3 * min(1, cpuCores / 8), 0.3 * min(1, ramGB / 16), 0.2 * min(1, storageGB / 512) and a
  single network bonus: 0.2 with 5G, else 0.15 with WiFi 6, else 0.1 with WiFi 5, else 0.
\<close>

theorem leadership_score_formula:
  "calculateLeadershipScore d =
     0.4 * (batteryLevel d / 100) + 0.3 * max 0 ((rssi d + 100) / 100) +
     0.2 * connectionStability d +
     0.1 * min 1 (0.3 * min 1 (cpuCores d / 8) + 0.3 * min 1 (ramGB d / 16) +
                  0.2 * min 1 (storageGB d / 512) +
                  (if supports5G d then 0.2
                   else if supportsWiFi6 d then 0.15
                   else if supportsWiFi5 d then 0.1 else 0))"
  by (simp add: score_defs mult.commute)

subsection \<open>C5\<close>

text \<open>
  Claim C5. The members of the cluster returned by \<open>optimizeCluster\<close> are the input members
  whose battery level is at or above the threshold, in their original order. So the result
  has no more members than the input, every member of the result is an input member that
  was not pruned, and when every member is pruned the result is a cluster with no members,
  both metrics 0 and the leader left as it was; \<open>optimizeCluster\<close> has no failing path.
\<close>

theorem optimizeCluster_prunes_low_battery:
  "members (optimizeCluster T c) = filter (\<lambda>d. T \<le> batteryLevel d) (members c) \<and>
   length (members (optimizeCluster T c)) \<le> length (members c) \<and>
   (\<forall>d\<in>set (members (optimizeCluster T c)). d \<in> set (members c) \<and> \<not> batteryLevel d < T) \<and>
   ((\<forall>d\<in>set (members c). batteryLevel d < T) \<longrightarrow>
      members (optimizeCluster T c) = [] \<and> averageRssi (optimizeCluster T c) = 0 \<and>
      totalBatteryLevel (optimizeCluster T c) = 0 \<and>
      leader (optimizeCluster T c) = leader c)"
proof -
  have keep: "(\<lambda>d. \<not> batteryLevel d < T) = (\<lambda>d. T \<le> batteryLevel d)"
    by (simp add: not_less)
  have m: "members (optimizeCluster T c) = filter (\<lambda>d. T \<le> batteryLevel d) (members c)"
    by (simp add: optimizeCluster_members keep)
  have len: "length (members (optimizeCluster T c)) \<le> length (members c)"
    unfolding m by (rule length_filter_le)
  have surv: "\<forall>d\<in>set (members (optimizeCluster T c)). d \<in> set (members c) \<and> \<not> batteryLevel d < T"
    unfolding m by simp
  have all: "(\<forall>d\<in>set (members c). batteryLevel d < T) \<longrightarrow>
      members (optimizeCluster T c) = [] \<and> averageRssi (optimizeCluster T c) = 0 \<and>
      totalBatteryLevel (optimizeCluster T c) = 0 \<and> leader (optimizeCluster T c) = leader c"
  proof
    assume low: "\<forall>d\<in>set (members c). batteryLevel d < T"
    have e: "filter (\<lambda>d. \<not> batteryLevel d < T) (members c) = []"
      using low by (simp add: filter_empty_conv)
    then have e': "members (optimizeCluster T c) = []" by (simp add: optimizeCluster_members)
    have "averageRssi (optimizeCluster T c) = 0"
      by (simp add: optimizeCluster_metrics e' calculateAverageRssi_def)
    moreover have "totalBatteryLevel (optimizeCluster T c) = 0"
      by (simp add: optimizeCluster_metrics e' calculateTotalBattery_def)
    moreover have "leader (optimizeCluster T c) = leader c"
      by (simp add: optimizeCluster_leader e electLeader_def electLeader_with_def)
    ultimately show "members (optimizeCluster T c) = [] \<and> averageRssi (optimizeCluster T c) = 0 \<and>
      totalBatteryLevel (optimizeCluster T c) = 0 \<and> leader (optimizeCluster T c) = leader c"
      using e' by simp
  qed
  show ?thesis by (rule conjI [OF m conjI [OF len conjI [OF surv all]]])
qed

theorem optimizeCluster_prunes_low_battery_witness:
  "members cluster_BA = [device_B, device_A] \<and>
   batteryLevel device_B < 100 \<and> batteryLevel device_A < 100 \<and>
   members (optimizeCluster 100 cluster_BA) = [] \<and>
   averageRssi (optimizeCluster 100 cluster_BA) = 0 \<and>
   totalBatteryLevel (optimizeCluster 100 cluster_BA) = 0 \<and>
   leader (optimizeCluster 100 cluster_BA) = device_B \<and>
   members (optimizeCluster 50 cluster_BA) = [device_A] \<and>
   length (members (optimizeCluster 50 cluster_BA)) \<le> length (members cluster_BA) \<and>
   \<not> batteryLevel device_A < 50"
proof -
  have ms: "members cluster_BA = [device_B, device_A]" by (simp add: cluster_BA_def)
  have b: "batteryLevel device_B < 100" "batteryLevel device_A < 100"
    "\<not> batteryLevel device_A < 50"
    by (simp_all add: example_defs)
  have low: "\<forall>d\<in>set (members cluster_BA). batteryLevel d < 100"
    unfolding ms using b by simp
  have l: "leader cluster_BA = device_B" by (simp add: cluster_BA_def)
  have f: "filter (\<lambda>d. 50 \<le> batteryLevel d) (members cluster_BA) = [device_A]"
    by (simp add: cluster_BA_def example_defs)
  have drained: "members (optimizeCluster 100 cluster_BA) = [] \<and>
      averageRssi (optimizeCluster 100 cluster_BA) = 0 \<and>
      totalBatteryLevel (optimizeCluster 100 cluster_BA) = 0 \<and>
      leader (optimizeCluster 100 cluster_BA) = leader cluster_BA"
    using optimizeCluster_prunes_low_battery [of 100 cluster_BA] low by blast
  have "members (optimizeCluster 50 cluster_BA) =
      filter (\<lambda>d. 50 \<le> batteryLevel d) (members cluster_BA)"
    using optimizeCluster_prunes_low_battery [of 50 cluster_BA] by blast
  then have kept: "members (optimizeCluster 50 cluster_BA) = [device_A]"
    by (simp only: f)
  have len: "length (members (optimizeCluster 50 cluster_BA)) \<le> length (members cluster_BA)"
    unfolding kept ms by simp
  from ms b drained kept len show ?thesis by (simp only: l simp_thms)
qed

subsection \<open>C6\<close>

text \<open>
  Claim C6. \<open>formCluster\<close> fails with \<open>InvalidInput\<close> if and only if the device list is
  empty; for every non-empty device list (and a maximum size of at least 1, as documented)
  it returns a cluster. No other operation fails: each is a total function whose result
  holds no error, and the cases in which one might are normal results. An election over
  no devices returns no leader, a cluster whose members are all pruned is returned with
  no members and both metrics 0, and the average and the total over no members are 0.
\<close>

theorem formCluster_failure:
  "(formCluster std_sort id_clock id_draw now devices n = Inl InvalidInput \<longleftrightarrow> devices = []) \<and>
   (devices \<noteq> [] \<and> 1 \<le> n \<and> std_sort_post rssi_greater devices (std_sort rssi_greater devices)
      \<longrightarrow> (\<exists>c. formCluster std_sort id_clock id_draw now devices n = Inr c)) \<and>
   electLeader [] = None \<and>
   ((\<forall>d\<in>set (members k). batteryLevel d < T) \<longrightarrow>
      members (optimizeCluster T k) = [] \<and> averageRssi (optimizeCluster T k) = 0 \<and>
      totalBatteryLevel (optimizeCluster T k) = 0) \<and>
   calculateAverageRssi [] = 0 \<and> calculateTotalBattery [] = 0"
proof (intro conjI impI)
  show "formCluster std_sort id_clock id_draw now devices n = Inl InvalidInput \<longleftrightarrow> devices = []"
    by (rule formCluster_InvalidInput_iff)
next
  assume a: "devices \<noteq> [] \<and> 1 \<le> n \<and>
    std_sort_post rssi_greater devices (std_sort rssi_greater devices)"
  then have "length (std_sort rssi_greater devices) = length devices"
    by (auto dest: std_sort_post_length)
  with a have "take n (std_sort rssi_greater devices) \<noteq> []" by auto
  with a show "\<exists>c. formCluster std_sort id_clock id_draw now devices n = Inr c"
    by (simp add: formCluster_returns)
next
  show "electLeader [] = None" by (simp add: electLeader_def electLeader_with_def)
next
  assume low: "\<forall>d\<in>set (members k). batteryLevel d < T"
  show "members (optimizeCluster T k) = []" using low by (rule optimizeCluster_all_pruned)
  show "averageRssi (optimizeCluster T k) = 0" using low by (rule optimizeCluster_all_pruned)
  show "totalBatteryLevel (optimizeCluster T k) = 0"
    using low by (rule optimizeCluster_all_pruned)
next
  show "calculateAverageRssi [] = 0" by (simp add: calculateAverageRssi_def)
  show "calculateTotalBattery [] = 0" by (simp add: calculateTotalBattery_def)
qed

theorem formCluster_failure_witness:
  "formCluster libstdcxx_sort 17 1234 18 [] 2 = Inl InvalidInput \<and>
   [device_A, device_B, device_C] \<noteq> [] \<and> (1::nat) \<le> 2 \<and>
   std_sort_post rssi_greater [device_A, device_B, device_C]
     (libstdcxx_sort rssi_greater [device_A, device_B, device_C]) \<and>
   (\<exists>c. formCluster libstdcxx_sort 17 1234 18 [device_A, device_B, device_C] 2 = Inr c) \<and>
   members cluster_BA = [device_B, device_A] \<and>
   batteryLevel device_B < 100 \<and> batteryLevel device_A < 100 \<and>
   members (optimizeCluster 100 cluster_BA) = [] \<and>
   averageRssi (optimizeCluster 100 cluster_BA) = 0 \<and>
   totalBatteryLevel (optimizeCluster 100 cluster_BA) = 0"
proof -
  note t1 = formCluster_failure [of libstdcxx_sort 17 1234 18 "[]" 2 cluster_BA 100]
  note t2 = formCluster_failure [of libstdcxx_sort 17 1234 18 "[device_A, device_B, device_C]" 2
      cluster_BA 100]
  have e: "formCluster libstdcxx_sort 17 1234 18 [] 2 = Inl InvalidInput"
    using t1 by blast
  have ne: "[device_A, device_B, device_C] \<noteq> []" by simp
  have one: "(1::nat) \<le> 2" by simp
  have r: "\<exists>c. formCluster libstdcxx_sort 17 1234 18 [device_A, device_B, device_C] 2 = Inr c"
    using t2 ne one sorted_ABC by blast
  have ms: "members cluster_BA = [device_B, device_A]" by (simp add: cluster_BA_def)
  have b: "batteryLevel device_B < 100" "batteryLevel device_A < 100"
    by (simp_all add: example_defs)
  have low: "\<forall>d\<in>set (members cluster_BA). batteryLevel d < 100"
    unfolding ms using b by simp
  have p: "members (optimizeCluster 100 cluster_BA) = [] \<and>
      averageRssi (optimizeCluster 100 cluster_BA) = 0 \<and>
      totalBatteryLevel (optimizeCluster 100 cluster_BA) = 0"
    using t2 low by blast
  from e ne one sorted_ABC r ms b p show ?thesis by blast
qed

subsection \<open>C7\<close>

text \<open>
  Claim C7. For every non-empty device list and every maximum size of at least 1,
  \<open>formCluster\<close> returns a cluster whose number of members is the minimum of the number of
  devices and the maximum size.
\<close>

theorem members_size:
  assumes "devices \<noteq> []" and "1 \<le> n"
    and "std_sort_post rssi_greater devices (std_sort rssi_greater devices)"
  shows "\<exists>c. formCluster std_sort id_clock id_draw now devices n = Inr c \<and>
             length (members c) = min (length devices) n"
proof -
  have len: "length (std_sort rssi_greater devices) = length devices"
    using assms(3) by (rule std_sort_post_length)
  with assms(1,2) have "take n (std_sort rssi_greater devices) \<noteq> []" by auto
  with assms(1) obtain c where c: "formCluster std_sort id_clock id_draw now devices n = Inr c"
    using formCluster_returns by blast
  then have "members c = take n (std_sort rssi_greater devices)" by (rule formCluster_Inr(2))
  then have "length (members c) = min (length devices) n" using len by simp
  with c show ?thesis by blast
qed

theorem members_size_witness:
  "[device_A, device_B, device_C] \<noteq> [] \<and> (1::nat) \<le> 2 \<and>
   std_sort_post rssi_greater [device_A, device_B, device_C]
     (libstdcxx_sort rssi_greater [device_A, device_B, device_C]) \<and>
   (\<exists>c. formCluster libstdcxx_sort 17 1234 18 [device_A, device_B, device_C] 2 = Inr c \<and>
        length (members c) = min (length [device_A, device_B, device_C]) 2)"
proof -
  have ne: "[device_A, device_B, device_C] \<noteq> []" by simp
  have one: "(1::nat) \<le> 2" by simp
  from members_size [of "[device_A, device_B, device_C]" 2 libstdcxx_sort 17 1234 18,
      OF ne one sorted_ABC] ne one sorted_ABC
  show ?thesis by blast
qed

subsection \<open>C8\<close>

text \<open>
  Claim C8. The leadership score is monotone in each numeric factor on its own: raising
  one of batteryLevel, rssi, connectionStability, cpuCores, ramGB or storageGB of a device
  from \<open>v\<close> to \<open>w \<ge> v\<close>, all other fields unchanged, never lowers the score.
\<close>

theorem leadership_score_monotone:
  assumes "v \<le> w"
  shows "calculateLeadershipScore (d\<lparr>batteryLevel := v\<rparr>) \<le> calculateLeadershipScore (d\<lparr>batteryLevel := w\<rparr>)
       \<and> calculateLeadershipScore (d\<lparr>rssi := v\<rparr>) \<le> calculateLeadershipScore (d\<lparr>rssi := w\<rparr>)
       \<and> calculateLeadershipScore (d\<lparr>connectionStability := v\<rparr>) \<le> calculateLeadershipScore (d\<lparr>connectionStability := w\<rparr>)
       \<and> calculateLeadershipScore (d\<lparr>cpuCores := v\<rparr>) \<le> calculateLeadershipScore (d\<lparr>cpuCores := w\<rparr>)
       \<and> calculateLeadershipScore (d\<lparr>ramGB := v\<rparr>) \<le> calculateLeadershipScore (d\<lparr>ramGB := w\<rparr>)
       \<and> calculateLeadershipScore (d\<lparr>storageGB := v\<rparr>) \<le> calculateLeadershipScore (d\<lparr>storageGB := w\<rparr>)"
proof -
  have battery: "calculateLeadershipScore (d\<lparr>batteryLevel := v\<rparr>) \<le> calculateLeadershipScore (d\<lparr>batteryLevel := w\<rparr>)"
    using assms by (simp add: score_via_capability)
  have "max 0 ((v + 100) / 100) \<le> max 0 ((w + 100) / 100)"
    using assms by (intro max.mono order_refl divide_right_mono) simp_all
  then have signal: "calculateLeadershipScore (d\<lparr>rssi := v\<rparr>) \<le> calculateLeadershipScore (d\<lparr>rssi := w\<rparr>)"
    by (simp add: score_via_capability)
  have stability: "calculateLeadershipScore (d\<lparr>connectionStability := v\<rparr>) \<le> calculateLeadershipScore (d\<lparr>connectionStability := w\<rparr>)"
    using assms by (simp add: score_via_capability)
  have cpu: "calculateLeadershipScore (d\<lparr>cpuCores := v\<rparr>) \<le> calculateLeadershipScore (d\<lparr>cpuCores := w\<rparr>)"
    using capability_mono_cpuCores [OF assms, of d] by (simp add: score_via_capability)
  have ram: "calculateLeadershipScore (d\<lparr>ramGB := v\<rparr>) \<le> calculateLeadershipScore (d\<lparr>ramGB := w\<rparr>)"
    using capability_mono_ramGB [OF assms, of d] by (simp add: score_via_capability)
  have storage: "calculateLeadershipScore (d\<lparr>storageGB := v\<rparr>) \<le> calculateLeadershipScore (d\<lparr>storageGB := w\<rparr>)"
    using capability_mono_storageGB [OF assms, of d] by (simp add: score_via_capability)
  from battery signal stability cpu ram storage show ?thesis by blast
qed

theorem leadership_score_monotone_witness:
  "(20::real) \<le> 90 \<and>
   (calculateLeadershipScore (device_A\<lparr>batteryLevel := 20\<rparr>) \<le> calculateLeadershipScore (device_A\<lparr>batteryLevel := 90\<rparr>)
     \<and> calculateLeadershipScore (device_A\<lparr>rssi := 20\<rparr>) \<le> calculateLeadershipScore (device_A\<lparr>rssi := 90\<rparr>)
     \<and> calculateLeadershipScore (device_A\<lparr>connectionStability := 20\<rparr>) \<le> calculateLeadershipScore (device_A\<lparr>connectionStability := 90\<rparr>)
     \<and> calculateLeadershipScore (device_A\<lparr>cpuCores := 20\<rparr>) \<le> calculateLeadershipScore (device_A\<lparr>cpuCores := 90\<rparr>)
     \<and> calculateLeadershipScore (device_A\<lparr>ramGB := 20\<rparr>) \<le> calculateLeadershipScore (device_A\<lparr>ramGB := 90\<rparr>)
     \<and> calculateLeadershipScore (device_A\<lparr>storageGB := 20\<rparr>) \<le> calculateLeadershipScore (device_A\<lparr>storageGB := 90\<rparr>))"
proof -
  have h: "(20::real) \<le> 90" by simp
  show ?thesis by (rule conjI [OF h leadership_score_monotone [OF h, of device_A]])
qed

subsection \<open>C9\<close>

text \<open>
  Claim C9. In every cluster returned by \<open>formCluster\<close> or \<open>optimizeCluster\<close>, the average
  signal strength is the arithmetic mean of the members' signal strengths and the total
  battery level is the sum of the members' battery levels, both taken over the final
  (truncated or pruned) member list and both 0 when there are no members.
\<close>

theorem metrics_follow_members:
  "(formCluster std_sort id_clock id_draw now devices n = Inr c \<longrightarrow>
      averageRssi c = arithmetic_mean (map rssi (members c)) \<and>
      totalBatteryLevel c = sum_list (map batteryLevel (members c))) \<and>
   averageRssi (optimizeCluster T k) = arithmetic_mean (map rssi (members (optimizeCluster T k))) \<and>
   totalBatteryLevel (optimizeCluster T k) = sum_list (map batteryLevel (members (optimizeCluster T k))) \<and>
   arithmetic_mean (map rssi []) = 0 \<and> sum_list (map batteryLevel []) = 0"
proof -
  have mean: "calculateAverageRssi ms = arithmetic_mean (map rssi ms)" for ms
    by (simp add: calculateAverageRssi_mean arithmetic_mean_def)
  have "averageRssi c = arithmetic_mean (map rssi (members c)) \<and>
      totalBatteryLevel c = sum_list (map batteryLevel (members c))"
    if "formCluster std_sort id_clock id_draw now devices n = Inr c"
    using formCluster_Inr(7,8) [OF that] by (simp add: mean calculateTotalBattery_sum)
  moreover have "averageRssi (optimizeCluster T k) =
      arithmetic_mean (map rssi (members (optimizeCluster T k)))"
    by (simp add: optimizeCluster_metrics mean)
  moreover have "totalBatteryLevel (optimizeCluster T k) =
      sum_list (map batteryLevel (members (optimizeCluster T k)))"
    by (simp add: optimizeCluster_metrics calculateTotalBattery_sum)
  moreover have "arithmetic_mean (map rssi []) = 0" by (simp add: arithmetic_mean_def)
  ultimately show ?thesis by simp
qed

theorem metrics_follow_members_witness:
  "formCluster libstdcxx_sort 17 1234 18 [device_A, device_B, device_C] 2 = Inr cluster_BA \<and>
   averageRssi cluster_BA = arithmetic_mean (map rssi (members cluster_BA)) \<and>
   averageRssi cluster_BA = - 35 \<and>
   totalBatteryLevel cluster_BA = sum_list (map batteryLevel (members cluster_BA)) \<and>
   totalBatteryLevel cluster_BA = 110"
  using metrics_follow_members [of libstdcxx_sort 17 1234 18 "[device_A, device_B, device_C]" 2
      cluster_BA] formCluster_ABC
  by (simp add: cluster_BA_def)

subsection \<open>C10\<close>

text \<open>
  Claim C10. \<open>optimizeCluster\<close> leaves the id, the formation time and the maximum size of
  the cluster as they were, and it leaves the leader as it was whenever a member with the
  old leader's id survives the pruning, also when another survivor has a higher score.
\<close>

theorem optimizeCluster_keeps_identity_and_leader:
  "cluster_id (optimizeCluster T c) = cluster_id c \<and>
   formationTime (optimizeCluster T c) = formationTime c \<and>
   maxSize (optimizeCluster T c) = maxSize c \<and>
   ((\<exists>m\<in>set (members c). \<not> batteryLevel m < T \<and> device_id m = device_id (leader c)) \<longrightarrow>
      leader (optimizeCluster T c) = leader c)"
proof -
  have "leader (optimizeCluster T c) = leader c"
    if "\<exists>m\<in>set (members c). \<not> batteryLevel m < T \<and> device_id m = device_id (leader c)"
  proof -
    from that have "\<exists>m\<in>set (filter (\<lambda>device. \<not> batteryLevel device < T) (members c)).
        device_id m = device_id (leader c)" by auto
    then show ?thesis by (simp only: optimizeCluster_leader Let_def if_True)
  qed
  then show ?thesis by (simp add: optimizeCluster_frame)
qed

theorem optimizeCluster_keeps_identity_and_leader_witness:
  "(\<exists>m\<in>set (members cluster_AB). \<not> batteryLevel m < 20 \<and> device_id m = device_id (leader cluster_AB)) \<and>
   members (optimizeCluster 20 cluster_AB) = [device_B, device_A] \<and>
   calculateLeadershipScore device_A < calculateLeadershipScore device_B \<and>
   leader (optimizeCluster 20 cluster_AB) = device_A \<and>
   cluster_id (optimizeCluster 20 cluster_AB) = cluster_id cluster_AB \<and>
   formationTime (optimizeCluster 20 cluster_AB) = 18 \<and>
   maxSize (optimizeCluster 20 cluster_AB) = 2"
proof -
  have h: "\<exists>m\<in>set (members cluster_AB). \<not> batteryLevel m < 20 \<and> device_id m = device_id (leader cluster_AB)"
    by (simp add: cluster_AB_def example_defs)
  have m: "members (optimizeCluster 20 cluster_AB) = [device_B, device_A]"
    by (simp add: optimizeCluster_members cluster_AB_def example_defs)
  have v: "leader cluster_AB = device_A" "formationTime cluster_AB = 18" "maxSize cluster_AB = 2"
    by (simp_all add: cluster_AB_def)
  show ?thesis
    using optimizeCluster_keeps_identity_and_leader [of 20 cluster_AB] h m v
    by (simp add: scores_ABC)
qed

end
